theory Spec2Isabelle
  imports Main "HOL-Library.AList" "HOL-Library.Word"
begin

section \<open>The lifecycle store (package store)\<close>

text \<open>
  Go strings are byte sequences, as \<^typ>\<open>string\<close> is. A Go map is modelled as an
  association list with distinct keys: \<^const>\<open>map_of\<close> is the lookup, \<^const>\<open>AList.update\<close>
  is \<^verbatim>\<open>m[k] = v\<close>, and the order of the list stands for one of the iteration orders Go
  may choose. A \<^verbatim>\<open>*Message\<close> is an index into the list of all \<^verbatim>\<open>Message\<close> objects
  allocated so far, since \<^verbatim>\<open>RecordSend\<close> stores one pointer both in the current-state
  table and in the history, and \<^verbatim>\<open>RecordDelete\<close> writes through it.
\<close>

subsection \<open>Time and identifiers\<close>

record gotime =
  year :: nat
  month :: nat
  day :: nat
  hour :: nat
  minute :: nat
  second :: nat
  nanosecond :: nat

fun decimal :: "nat \<Rightarrow> string" where
  "decimal n = (if n < 10 then [char_of (48 + n)]
                else decimal (n div 10) @ [char_of (48 + n mod 10)])"

declare decimal.simps [simp del]

definition appendInt :: "nat \<Rightarrow> nat \<Rightarrow> string" where
  "appendInt x width = replicate (width - length (decimal x)) (CHR ''0'') @ decimal x"

text \<open>\<^verbatim>\<open>time.Now().Format("20060102150405")\<close>: the fields zero-padded, year first.\<close>

definition Format :: "gotime \<Rightarrow> string" where
  "Format t = appendInt (year t) 4 @ appendInt (month t) 2 @ appendInt (day t) 2
            @ appendInt (hour t) 2 @ appendInt (minute t) 2 @ appendInt (second t) 2"

text \<open>\<^verbatim>\<open>rune(idCounter)\<close> keeps the low 32 bits of the \<^verbatim>\<open>int64\<close>, read as signed.\<close>

definition rune_of_int64 :: "64 word \<Rightarrow> int" where
  "rune_of_int64 c = sint (ucast c :: 32 word)"

text \<open>
  \<^verbatim>\<open>string(r)\<close> for a rune \<open>r\<close> is the UTF-8 encoding of the code point; a value that
  is no valid code point (negative, a surrogate, beyond U+10FFFF) becomes U+FFFD.
\<close>

definition string_of_rune :: "int \<Rightarrow> string" where
  "string_of_rune r =
     (if r < 0 \<or> 0x10FFFF < r \<or> (0xD800 \<le> r \<and> r \<le> 0xDFFF)
      then [char_of (0xEF::int), char_of (0xBF::int), char_of (0xBD::int)]
      else if r < 0x80 then [char_of r]
      else if r < 0x800 then [char_of (0xC0 + r div 64), char_of (0x80 + r mod 64)]
      else if r < 0x10000
      then [char_of (0xE0 + r div 4096), char_of (0x80 + (r div 64) mod 64),
            char_of (0x80 + r mod 64)]
      else [char_of (0xF0 + r div 262144), char_of (0x80 + (r div 4096) mod 64),
            char_of (0x80 + (r div 64) mod 64), char_of (0x80 + r mod 64)])"

subsection \<open>Messages and the store\<close>

datatype MessageAction = ActionSend | ActionReceive | ActionDelete

record Message =
  ID :: string
  MessageID :: string
  ReceiptHandle :: string
  QueueURL :: string
  QueueName :: string
  Body :: string
  Attributes :: "(string \<times> string) list"
  Action :: MessageAction
  Timestamp :: gotime
  Deleted :: bool
  DeletedAt :: "gotime option"

record QueueStats =
  statQueueName :: string
  statQueueURL :: string
  TotalSent :: nat
  TotalReceived :: nat
  TotalDeleted :: nat
  Pending :: nat

type_synonym addr = nat

text \<open>
  The four structures of \<^verbatim>\<open>Store\<close>, the objects its pointers refer to (\<open>heap\<close>), and the
  package-level \<^verbatim>\<open>idCounter\<close> that \<^verbatim>\<open>generateID\<close> increments.
\<close>

record Store =
  heap :: "Message list"
  messages :: "(string \<times> addr) list"
  queues :: "(string \<times> string list) list"
  history :: "addr list"
  receipts :: "(string \<times> string) list"
  idCounter :: "64 word"

definition New :: Store where
  "New = \<lparr>heap = [], messages = [], queues = [], history = [], receipts = [], idCounter = 0\<rparr>"

text \<open>Each reading of \<^verbatim>\<open>time.Now()\<close> is an argument of the operation that takes it.\<close>

definition generateID :: "gotime \<Rightarrow> Store \<Rightarrow> string \<times> Store" where
  "generateID now s =
     (let c = idCounter s + 1
      in (Format now @ ''-'' @ string_of_rune (rune_of_int64 c), s\<lparr>idCounter := c\<rparr>))"

text \<open>
  \<^verbatim>\<open>if s.queues[q] == nil { s.queues[q] = make(...) }; s.queues[q][m] = true\<close>:
  a membership set is a list without repetitions.
\<close>

definition add_member :: "string \<Rightarrow> string \<Rightarrow> (string \<times> string list) list
    \<Rightarrow> (string \<times> string list) list" where
  "add_member q m qs =
     AList.update q (List.insert m (case map_of qs q of None \<Rightarrow> [] | Some ids \<Rightarrow> ids)) qs"

definition RecordSend :: "string \<Rightarrow> string \<Rightarrow> string \<Rightarrow> string \<Rightarrow> (string \<times> string) list
    \<Rightarrow> gotime \<Rightarrow> gotime \<Rightarrow> Store \<Rightarrow> Store" where
  "RecordSend queueURL queueName messageID body attributes t_id t_msg s =
     (let (new_id, s1) = generateID t_id s;
          msg = \<lparr>ID = new_id, MessageID = messageID, ReceiptHandle = [],
                 QueueURL = queueURL, QueueName = queueName, Body = body,
                 Attributes = attributes, Action = ActionSend, Timestamp = t_msg,
                 Deleted = False, DeletedAt = None\<rparr>;
          p = length (heap s1)
      in s1\<lparr>heap := heap s1 @ [msg],
             messages := AList.update messageID p (messages s1),
             queues := add_member queueName messageID (queues s1),
             history := history s1 @ [p]\<rparr>)"

definition RecordReceive :: "string \<Rightarrow> string \<Rightarrow> string \<Rightarrow> string \<Rightarrow> string
    \<Rightarrow> (string \<times> string) list \<Rightarrow> gotime \<Rightarrow> gotime \<Rightarrow> gotime \<Rightarrow> Store \<Rightarrow> Store" where
  "RecordReceive queueURL queueName messageID receiptHandle body attributes t_id t_event t_msg s =
     (let (new_id, s1) = generateID t_id s;
          event = \<lparr>ID = new_id, MessageID = messageID, ReceiptHandle = receiptHandle,
                   QueueURL = queueURL, QueueName = queueName, Body = body,
                   Attributes = attributes, Action = ActionReceive, Timestamp = t_event,
                   Deleted = False, DeletedAt = None\<rparr>;
          pe = length (heap s1);
          s2 = s1\<lparr>heap := heap s1 @ [event],
                  history := history s1 @ [pe],
                  receipts := AList.update receiptHandle messageID (receipts s1)\<rparr>
      in case map_of (messages s2) messageID of
           Some _ \<Rightarrow> s2
         | None \<Rightarrow>
             (let msg = \<lparr>ID = ID event, MessageID = messageID, ReceiptHandle = receiptHandle,
                         QueueURL = queueURL, QueueName = queueName, Body = body,
                         Attributes = attributes, Action = ActionReceive, Timestamp = t_msg,
                         Deleted = False, DeletedAt = None\<rparr>;
                  pm = length (heap s2)
              in s2\<lparr>heap := heap s2 @ [msg],
                     messages := AList.update messageID pm (messages s2),
                     queues := add_member queueName messageID (queues s2)\<rparr>))"

definition RecordDelete :: "string \<Rightarrow> string \<Rightarrow> string \<Rightarrow> gotime \<Rightarrow> gotime \<Rightarrow> Store \<Rightarrow> Store" where
  "RecordDelete queueURL queueName receiptHandle now t_id s =
     (let (new_id, s1) = generateID t_id s;
          event = \<lparr>ID = new_id, MessageID = [], ReceiptHandle = receiptHandle,
                   QueueURL = queueURL, QueueName = queueName, Body = [],
                   Attributes = [], Action = ActionDelete, Timestamp = now,
                   Deleted = False, DeletedAt = None\<rparr>;
          (event', h') =
            (case map_of (receipts s1) receiptHandle of
               None \<Rightarrow> (event, heap s1)
             | Some messageID \<Rightarrow>
                 (case map_of (messages s1) messageID of
                    None \<Rightarrow> (event\<lparr>MessageID := messageID\<rparr>, heap s1)
                  | Some p \<Rightarrow>
                      (event\<lparr>MessageID := messageID, Body := Body (heap s1 ! p)\<rparr>,
                       (heap s1)[p := (heap s1 ! p)\<lparr>Deleted := True, DeletedAt := Some now\<rparr>])))
      in s1\<lparr>heap := h' @ [event'], history := history s1 @ [length h']\<rparr>)"

definition GetMessages :: "string \<Rightarrow> bool \<Rightarrow> Store \<Rightarrow> addr list" where
  "GetMessages queueName includeDeleted s =
     filter (\<lambda>p. \<not> (queueName \<noteq> [] \<and> QueueName (heap s ! p) \<noteq> queueName)
                \<and> \<not> (\<not> includeDeleted \<and> Deleted (heap s ! p)))
            (map snd (messages s))"

text \<open>
  \<^verbatim>\<open>limit\<close> is a Go \<^verbatim>\<open>int\<close>; the loop fills \<^verbatim>\<open>result[i]\<close> with
  \<^verbatim>\<open>s.history[len(s.history)-1-i]\<close> for \<open>i\<close> from 0 up to the clamped limit.
\<close>

definition GetHistory :: "int \<Rightarrow> Store \<Rightarrow> addr list" where
  "GetHistory limit s =
     (let n = length (history s);
          lim = (if limit \<le> 0 \<or> limit > int n then n else nat limit)
      in map (\<lambda>i. history s ! (n - 1 - i)) [0..<lim])"

definition Clear :: "Store \<Rightarrow> Store" where
  "Clear s = s\<lparr>messages := [], queues := [], history := [], receipts := []\<rparr>"

text \<open>
  \<^verbatim>\<open>GetQueueStats\<close>: the first loop walks the history and counts each event under its
  queue name, creating the entry at the first event of a queue; the second loop walks
  the membership sets and fills in \<^verbatim>\<open>Pending\<close> for the queues that have an entry.
\<close>

definition count_event :: "Message \<Rightarrow> QueueStats \<Rightarrow> QueueStats" where
  "count_event event st =
     (case Action event of
        ActionSend \<Rightarrow> st\<lparr>TotalSent := TotalSent st + 1\<rparr>
      | ActionReceive \<Rightarrow> st\<lparr>TotalReceived := TotalReceived st + 1\<rparr>
      | ActionDelete \<Rightarrow> st\<lparr>TotalDeleted := TotalDeleted st + 1\<rparr>)"

definition tally :: "Message \<Rightarrow> (string \<times> QueueStats) list \<Rightarrow> (string \<times> QueueStats) list" where
  "tally event stats =
     (let st = (case map_of stats (QueueName event) of
                  None \<Rightarrow> \<lparr>statQueueName = QueueName event, statQueueURL = QueueURL event,
                            TotalSent = 0, TotalReceived = 0, TotalDeleted = 0, Pending = 0\<rparr>
                | Some st \<Rightarrow> st)
      in AList.update (QueueName event) (count_event event st) stats)"

definition pending_of :: "Store \<Rightarrow> string list \<Rightarrow> nat" where
  "pending_of s queueMsgs =
     length (filter (\<lambda>msgID. case map_of (messages s) msgID of
                               None \<Rightarrow> False
                             | Some p \<Rightarrow> \<not> Deleted (heap s ! p)) queueMsgs)"

definition set_pending :: "Store \<Rightarrow> string \<times> string list \<Rightarrow> (string \<times> QueueStats) list
    \<Rightarrow> (string \<times> QueueStats) list" where
  "set_pending s entry stats =
     (case map_of stats (fst entry) of
        None \<Rightarrow> stats
      | Some st \<Rightarrow> AList.update (fst entry) (st\<lparr>Pending := pending_of s (snd entry)\<rparr>) stats)"

definition GetQueueStats :: "Store \<Rightarrow> QueueStats list" where
  "GetQueueStats s =
     (let stats = fold (\<lambda>p. tally (heap s ! p)) (history s) [];
          stats' = fold (set_pending s) (queues s) stats
      in map snd stats')"

subsection \<open>Sequences of store operations\<close>

datatype store_op =
    OpSend string string string string "(string \<times> string) list" gotime gotime
  | OpReceive string string string string string "(string \<times> string) list" gotime gotime gotime
  | OpDelete string string string gotime gotime
  | OpClear

fun apply_op :: "store_op \<Rightarrow> Store \<Rightarrow> Store" where
  "apply_op (OpSend u q m b a t1 t2) s = RecordSend u q m b a t1 t2 s"
| "apply_op (OpReceive u q m rh b a t1 t2 t3) s = RecordReceive u q m rh b a t1 t2 t3 s"
| "apply_op (OpDelete u q rh t1 t2) s = RecordDelete u q rh t1 t2 s"
| "apply_op OpClear s = Clear s"

definition run :: "store_op list \<Rightarrow> Store \<Rightarrow> Store" where
  "run ops s = fold apply_op ops s"

fun sends_id :: "string \<Rightarrow> store_op \<Rightarrow> bool" where
  "sends_id m (OpSend u q m' b a t1 t2) = (m' = m)"
| "sends_id m _ = False"

text \<open>The states a store can be in: \<^verbatim>\<open>New()\<close>, then any operations.\<close>

inductive reachable :: "Store \<Rightarrow> bool" where
  reach_New: "reachable New"
| reach_op: "reachable s \<Longrightarrow> reachable (apply_op x s)"

text \<open>The current-state entry of a message id, read through its pointer.\<close>

definition current :: "Store \<Rightarrow> string \<Rightarrow> Message option" where
  "current s m = map_option (\<lambda>p. heap s ! p) (map_of (messages s) m)"

definition members :: "Store \<Rightarrow> string \<Rightarrow> string list" where
  "members s q = (case map_of (queues s) q of None \<Rightarrow> [] | Some ids \<Rightarrow> ids)"

definition events :: "Store \<Rightarrow> Message list" where
  "events s = map (\<lambda>p. heap s ! p) (history s)"

text \<open>What every reachable store satisfies: pointers refer to allocated objects, keys are
  distinct, and the entry stored under a message id carries that id.\<close>

definition wf :: "Store \<Rightarrow> bool" where
  "wf s \<longleftrightarrow>
     distinct (map fst (messages s)) \<and>
     (\<forall>(k, p) \<in> set (messages s). p < length (heap s) \<and> MessageID (heap s ! p) = k) \<and>
     (\<forall>p \<in> set (history s). p < length (heap s)) \<and>
     distinct (map fst (queues s)) \<and>
     (\<forall>(q, ids) \<in> set (queues s). distinct ids) \<and>
     distinct (map fst (receipts s))"

text \<open>Every current-state entry is a member of the queue it names.\<close>

definition linked :: "Store \<Rightarrow> bool" where
  "linked s \<longleftrightarrow> (\<forall>(k, p) \<in> set (messages s). k \<in> set (members s (QueueName (heap s ! p))))"

text \<open>The number of events of one kind that carry a queue name.\<close>

definition count_kind :: "MessageAction \<Rightarrow> string \<Rightarrow> Message list \<Rightarrow> nat" where
  "count_kind a q evs = length (filter (\<lambda>e. Action e = a \<and> QueueName e = q) evs)"

text \<open>A message id whose current-state entry exists and is not marked deleted.\<close>

definition live :: "Store \<Rightarrow> string \<Rightarrow> bool" where
  "live s m = (case current s m of None \<Rightarrow> False | Some e \<Rightarrow> \<not> Deleted e)"

text \<open>The first loop: the table after the events \<open>evs\<close> counts exactly them.\<close>

definition counted :: "Message list \<Rightarrow> (string \<times> QueueStats) list \<Rightarrow> bool" where
  "counted evs st \<longleftrightarrow>
     distinct (map fst st) \<and> fst ` set st = QueueName ` set evs \<and>
     (\<forall>q r. map_of st q = Some r \<longrightarrow>
        statQueueName r = q \<and> TotalSent r = count_kind ActionSend q evs \<and>
        TotalReceived r = count_kind ActionReceive q evs \<and>
        TotalDeleted r = count_kind ActionDelete q evs \<and> Pending r = 0)"

section \<open>The protocol codec and the interceptor (package proxy)\<close>

subsection \<open>Strings and regular expressions\<close>

definition HasPrefix :: "string \<Rightarrow> string \<Rightarrow> bool" where
  "HasPrefix s p = (take (length p) s = p)"

definition TrimPrefix :: "string \<Rightarrow> string \<Rightarrow> string" where
  "TrimPrefix s p = (if HasPrefix s p then drop (length p) s else s)"



text \<open>
  The regular expressions of the source are sequences of literals, greedy character
  classes that the following literal cannot start with, and one lazy \<^verbatim>\<open>(.*?)\<close> before a
  literal; so whether one matches at a position, and what it captures, is found by
  reading left to right. A matcher takes the text from a position on and returns the
  captures with the length of the match.
\<close>

definition literal :: "string \<Rightarrow> string \<Rightarrow> string option" where
  "literal p s = (if HasPrefix s p then Some (drop (length p) s) else None)"

definition some_of :: "(char \<Rightarrow> bool) \<Rightarrow> string \<Rightarrow> (string \<times> string) option" where
  "some_of P s = (if takeWhile P s = [] then None else Some (takeWhile P s, dropWhile P s))"


definition not_amp :: "char \<Rightarrow> bool" where
  "not_amp c = (c \<noteq> CHR ''&'')"


definition digit :: "char \<Rightarrow> bool" where
  "digit c = (c \<in> set ''0123456789'')"

text \<open>\<^verbatim>\<open>FindStringSubmatch\<close>: the match at the leftmost position that has one.\<close>

fun find_first :: "(string \<Rightarrow> 'a option) \<Rightarrow> string \<Rightarrow> 'a option" where
  "find_first m [] = m []"
| "find_first m (c # cs) =
     (case m (c # cs) of Some x \<Rightarrow> Some x | None \<Rightarrow> find_first m cs)"

text \<open>
  \<^verbatim>\<open>FindAllStringSubmatch(s, -1)\<close>: the successive matches that do not overlap; after
  a match of length \<open>n\<close> the search goes on behind it (\<open>skip\<close> counts the characters of
  the last match still to pass).
\<close>

fun find_all :: "(string \<Rightarrow> ('a \<times> nat) option) \<Rightarrow> nat \<Rightarrow> string \<Rightarrow> 'a list" where
  "find_all m skip [] = []"
| "find_all m skip (c # cs) =
     (if 0 < skip then find_all m (skip - 1) cs
      else (case m (c # cs) of
              Some (x, n) \<Rightarrow> x # find_all m (n - 1) cs
            | None \<Rightarrow> find_all m 0 cs))"

text \<open>\<^verbatim>\<open>field + `=([^&]+)`\<close>, for the field names the source passes (letters only).\<close>

definition re_field :: "string \<Rightarrow> string \<Rightarrow> string option" where
  "re_field field s =
     (case literal (field @ ''='') s of
        None \<Rightarrow> None
      | Some r \<Rightarrow> (case some_of not_amp r of None \<Rightarrow> None | Some (v, _) \<Rightarrow> Some v))"



text \<open>\<^verbatim>\<open>prefix + `\.(\d+)\.` + suffix + `=([^&]+)`\<close>: the index and the value.\<close>

definition re_indexed :: "string \<Rightarrow> string \<Rightarrow> string \<Rightarrow> ((string \<times> string) \<times> nat) option" where
  "re_indexed pre suf s =
     (case literal (pre @ ''.'') s of
        None \<Rightarrow> None
      | Some r \<Rightarrow>
          (case some_of digit r of
             None \<Rightarrow> None
           | Some (idx, r') \<Rightarrow>
               (case literal (''.'' @ suf @ ''='') r' of
                  None \<Rightarrow> None
                | Some r'' \<Rightarrow>
                    (case some_of not_amp r'' of
                       None \<Rightarrow> None
                     | Some (v, _) \<Rightarrow>
                         Some ((idx, v), length pre + length idx + length suf + length v + 3)))))"

subsection \<open>\<^verbatim>\<open>url.QueryUnescape\<close>\<close>

definition ishex :: "char \<Rightarrow> bool" where
  "ishex c = (c \<in> set ''0123456789abcdefABCDEF'')"

definition unhex :: "char \<Rightarrow> nat" where
  "unhex c =
     (if c \<in> set ''0123456789'' then of_char c - 48
      else if c \<in> set ''abcdef'' then of_char c - 97 + 10
      else if c \<in> set ''ABCDEF'' then of_char c - 65 + 10
      else 0)"

fun escapes_ok :: "string \<Rightarrow> bool" where
  "escapes_ok [] = True"
| "escapes_ok (c # cs) =
     (if c = CHR ''%''
      then (case cs of a # b # rest \<Rightarrow> ishex a \<and> ishex b \<and> escapes_ok rest | _ \<Rightarrow> False)
      else escapes_ok cs)"

fun unescape :: "string \<Rightarrow> string" where
  "unescape [] = []"
| "unescape (c # cs) =
     (if c = CHR ''%''
      then (case cs of a # b # rest \<Rightarrow> char_of (unhex a * 16 + unhex b) # unescape rest | _ \<Rightarrow> [])
      else if c = CHR ''+'' then CHR '' '' # unescape cs
      else c # unescape cs)"

text \<open>
  \<^verbatim>\<open>decoded, _ := url.QueryUnescape(v)\<close>: on a malformed escape the error is dropped and
  \<^verbatim>\<open>decoded\<close> is the empty string.
\<close>

definition QueryUnescape :: "string \<Rightarrow> string" where
  "QueryUnescape v = (if escapes_ok v then unescape v else [])"

subsection \<open>JSON values\<close>

text \<open>
  What \<^verbatim>\<open>json.Unmarshal\<close> builds behind an \<^verbatim>\<open>interface{}\<close>. The parser of
  \<^verbatim>\<open>encoding/json\<close> itself is a parameter \<open>dec\<close> of every function that decodes a body:
  \<open>None\<close> is a syntax error, and an object arrives as the Go map, one entry per key.
  No code here reads a number, so \<open>JNumber\<close> carries none.
\<close>

datatype json =
    JNull
  | JBool bool
  | JNumber
  | JString string
  | JArray "json list"
  | JObject "(string \<times> json) list"

text \<open>
  Unmarshalling into a \<^verbatim>\<open>map[string]interface{}\<close> succeeds on an object and on
  \<^verbatim>\<open>null\<close> (which leaves the map nil, and every lookup in it empty).
\<close>

definition Unmarshal :: "(string \<Rightarrow> json option) \<Rightarrow> string \<Rightarrow> (string \<times> json) list option" where
  "Unmarshal dec body =
     (case dec body of
        Some (JObject data) \<Rightarrow> Some data
      | Some JNull \<Rightarrow> Some []
      | _ \<Rightarrow> None)"

text \<open>
  The loop that both \<^verbatim>\<open>extractMessageAttributes\<close> and
  \<^verbatim>\<open>parseReceiveMessageResponseJSON\<close> run over a \<^verbatim>\<open>MessageAttributes\<close> object.
\<close>

fun string_values :: "(string \<times> json) list \<Rightarrow> (string \<times> string) list
    \<Rightarrow> (string \<times> string) list" where
  "string_values [] attrs = attrs"
| "string_values ((name, v) # rest) attrs =
     string_values rest
       (case v of
          JObject attr \<Rightarrow>
            (case map_of attr ''StringValue'' of
               Some (JString sv) \<Rightarrow> AList.update name sv attrs
             | _ \<Rightarrow> attrs)
        | _ \<Rightarrow> attrs)"

subsection \<open>Field extraction\<close>

definition parseActionFromTarget :: "string \<Rightarrow> string" where
  "parseActionFromTarget target =
     (if HasPrefix target ''AmazonSQS.'' then TrimPrefix target ''AmazonSQS.'' else [])"

definition parseActionFromForm :: "string \<Rightarrow> string" where
  "parseActionFromForm body =
     (case find_first (re_field ''Action'') body of Some v \<Rightarrow> v | None \<Rightarrow> ''Unknown'')"



text \<open>\<^verbatim>\<open>Proxy.parseAction\<close>, with the \<^verbatim>\<open>X-Amz-Target\<close> header of the request.\<close>

definition parseAction :: "string \<Rightarrow> string \<Rightarrow> string" where
  "parseAction target body =
     (if target \<noteq> [] \<and> parseActionFromTarget target \<noteq> [] then parseActionFromTarget target
      else parseActionFromForm body)"




text \<open>
  The Form branch of \<^verbatim>\<open>extractMessageAttributes\<close>: the two tables from index to decoded
  name and to decoded value (a later match of an index replaces an earlier one), and
  the loop over \<^verbatim>\<open>names\<close> that looks each index up in \<^verbatim>\<open>values\<close>.
\<close>

definition collect :: "(string \<times> string) list \<Rightarrow> (string \<times> string) list" where
  "collect matches = fold (\<lambda>match tab. AList.update (fst match) (QueryUnescape (snd match)) tab) matches []"

definition form_names :: "string \<Rightarrow> (string \<times> string) list" where
  "form_names body = collect (find_all (re_indexed ''MessageAttribute'' ''Name'') 0 body)"

definition form_values :: "string \<Rightarrow> (string \<times> string) list" where
  "form_values body =
     collect (find_all (re_indexed ''MessageAttribute'' ''Value.StringValue'') 0 body)"

definition correlate :: "(string \<times> string) list \<Rightarrow> (string \<times> string) list
    \<Rightarrow> (string \<times> string) list" where
  "correlate names values =
     fold (\<lambda>entry attrs. case map_of values (fst entry) of
                            Some val \<Rightarrow> AList.update (snd entry) val attrs
                          | None \<Rightarrow> attrs) names []"

text \<open>One round of the loop over \<^verbatim>\<open>names\<close>, and what the whole loop does to one name.\<close>

definition pair_up :: "(string \<times> string) list \<Rightarrow> string \<times> string \<Rightarrow> (string \<times> string) list
    \<Rightarrow> (string \<times> string) list" where
  "pair_up values entry attrs =
     (case map_of values (fst entry) of
        Some val \<Rightarrow> AList.update (snd entry) val attrs
      | None \<Rightarrow> attrs)"

definition extractMessageAttributes :: "(string \<Rightarrow> json option) \<Rightarrow> string \<Rightarrow> bool
    \<Rightarrow> (string \<times> string) list" where
  "extractMessageAttributes dec body isJSON =
     (if isJSON
      then (case Unmarshal dec body of
              None \<Rightarrow> []
            | Some data \<Rightarrow>
                (case map_of data ''MessageAttributes'' of
                   Some (JObject msgAttrs) \<Rightarrow> string_values msgAttrs []
                 | _ \<Rightarrow> []))
      else correlate (form_names body) (form_values body))"







subsection \<open>Dispatch to the store\<close>












section \<open>Concrete runs\<close>

definition t0 :: gotime where
  "t0 = \<lparr>year = 2024, month = 1, day = 2, hour = 3, minute = 4, second = 5, nanosecond = 0\<rparr>"

definition sent_m1 :: Store where
  "sent_m1 = apply_op (OpSend ''http://x/q1'' ''q1'' ''m1'' ''hi'' [] t0 t0) New"

definition received_m1 :: Store where
  "received_m1 = apply_op (OpReceive ''http://x/q1'' ''q1'' ''m1'' ''rh1'' ''hi'' [] t0 t0 t0) New"

definition deleted_m1 :: Store where
  "deleted_m1 = apply_op (OpDelete ''http://x/q1'' ''q1'' ''rh1'' t0 t0) received_m1"

definition resent_m1 :: Store where
  "resent_m1 = apply_op (OpSend ''http://x/q1'' ''q1'' ''m1'' ''hi'' [] t0 t0) deleted_m1"

definition busy_q1 :: Store where
  "busy_q1 = run [OpSend ''http://x/q1'' ''q1'' ''m1'' ''a'' [] t0 t0,
                  OpSend ''http://x/q1'' ''q1'' ''m2'' ''b'' [] t0 t0,
                  OpSend ''http://x/q1'' ''q1'' ''m3'' ''c'' [] t0 t0,
                  OpReceive ''http://x/q1'' ''q1'' ''m1'' ''rh1'' ''a'' [] t0 t0 t0,
                  OpReceive ''http://x/q1'' ''q1'' ''m2'' ''rh2'' ''b'' [] t0 t0 t0,
                  OpDelete ''http://x/q1'' ''q1'' ''rh1'' t0 t0] New"

definition moved_m1 :: Store where
  "moved_m1 = apply_op (OpSend ''http://x/q2'' ''q2'' ''m1'' ''hi'' [] t0 t0) sent_m1"

text \<open>
  A JSON \<^verbatim>\<open>SendMessage\<close> exchange, and a decoder that agrees with \<^verbatim>\<open>encoding/json\<close> on
  its two bodies.
\<close>

definition quoted :: "string \<Rightarrow> string" where
  "quoted s = [char_of (34::nat)] @ s @ [char_of (34::nat)]"

definition json_send_request :: string where
  "json_send_request = ''{'' @ quoted ''QueueUrl'' @ '':'' @ quoted ''http://x/q1'' @ '',''
     @ quoted ''MessageBody'' @ '':'' @ quoted ''hi'' @ ''}''"

definition json_send_response :: string where
  "json_send_response = ''{'' @ quoted ''MessageId'' @ '':'' @ quoted ''m1'' @ ''}''"

definition sample_dec :: "string \<Rightarrow> json option" where
  "sample_dec body =
     (if body = json_send_request
      then Some (JObject [(''QueueUrl'', JString ''http://x/q1''), (''MessageBody'', JString ''hi'')])
      else if body = json_send_response
      then Some (JObject [(''MessageId'', JString ''m1'')])
      else None)"

definition form_send_request :: string where
  "form_send_request = ''Action=SendMessage&QueueUrl=http%3A%2F%2Fx%2Fq1&MessageBody=hi''"


text \<open>Form bodies with message attributes: out of order, and two indices with one name.\<close>

definition scattered_attributes :: string where
  "scattered_attributes =
     ''MessageAttribute.7.Value.StringValue=x%20y&MessageAttribute.2.Name=b'' @
     ''&MessageAttribute.7.Name=a%2Bb&MessageAttribute.3.Value.StringValue=c''"

definition shared_name_attributes :: string where
  "shared_name_attributes =
     ''MessageAttribute.1.Name=a&MessageAttribute.1.Value.StringValue=x'' @
     ''&MessageAttribute.2.Name=a&MessageAttribute.2.Value.StringValue=y''"

section \<open>Properties of the store\<close>

subsection \<open>Reachable stores are well-formed\<close>

lemma in_set_updateD:
  "(k, v) \<in> set (AList.update k' v' al) \<Longrightarrow> (k = k' \<and> v = v') \<or> (k, v) \<in> set al"
  by (induct al) (auto split: if_splits)

lemma nth_upd: "xs[i := x] ! j = (if i = j \<and> i < length xs then x else xs ! j)"
  by (cases "i < length xs") (auto simp: nth_list_update list_update_beyond)

lemma wf_New: "wf New"
  by (simp add: wf_def New_def)

lemma distinct_add_member:
  "distinct (map fst qs) \<Longrightarrow> distinct (map fst (add_member q m qs))"
  by (simp add: add_member_def distinct_update)

lemma add_member_sets:
  assumes "\<forall>(q, ids) \<in> set qs. distinct ids" and "(q', ids') \<in> set (add_member q m qs)"
  shows "distinct ids'"
proof -
  have "distinct (List.insert m (case map_of qs q of None \<Rightarrow> [] | Some ids \<Rightarrow> ids))"
    using assms(1) by (auto split: option.splits dest!: map_of_SomeD)
  then show ?thesis
    using assms unfolding add_member_def by (auto dest!: in_set_updateD)
qed

lemma wf_send: "wf s \<Longrightarrow> wf (RecordSend u q m b a t1 t2 s)"
  unfolding wf_def RecordSend_def generateID_def
  apply (simp add: Let_def distinct_update distinct_add_member)
  apply (auto simp: nth_append dest!: in_set_updateD elim: add_member_sets)
  done

lemma wf_receive: "wf s \<Longrightarrow> wf (RecordReceive u q m rh b a t1 t2 t3 s)"
  unfolding wf_def RecordReceive_def generateID_def
  apply (simp add: Let_def distinct_update distinct_add_member split: option.split)
  apply (auto simp: nth_append less_Suc_eq dest!: in_set_updateD elim: add_member_sets)
  done

lemma wf_delete: "wf s \<Longrightarrow> wf (RecordDelete u q rh t1 t2 s)"
  unfolding wf_def RecordDelete_def generateID_def
  apply (simp add: Let_def split: option.split)
  apply (auto simp: nth_append nth_upd less_Suc_eq)
  done

lemma wf_clear: "wf s \<Longrightarrow> wf (Clear s)"
  by (simp add: wf_def Clear_def)

lemma wf_apply_op: "wf s \<Longrightarrow> wf (apply_op x s)"
  by (cases x) (simp_all add: wf_send wf_receive wf_delete wf_clear)

lemma reachable_wf: "reachable s \<Longrightarrow> wf s"
  by (induction rule: reachable.induct) (simp_all add: wf_New wf_apply_op)

lemma run_Cons: "run (x # ops) s = run ops (apply_op x s)"
  by (simp add: run_def)

lemma run_snoc: "run (ops @ [x]) s = apply_op x (run ops s)"
  by (simp add: run_def)

lemma wf_run: "wf s \<Longrightarrow> wf (run ops s)"
  by (induction ops arbitrary: s) (simp_all add: run_def wf_apply_op)

lemma reachable_run: "reachable s \<Longrightarrow> reachable (run ops s)"
  by (induction ops arbitrary: s) (simp_all add: run_def reach_op)

text \<open>An operation that only allocates leaves what the old pointers show as it was.\<close>

lemma current_unchanged:
  assumes "wf s" and "messages s' = messages s"
    and "\<forall>p < length (heap s). heap s' ! p = heap s ! p"
  shows "current s' k = current s k"
proof (cases "map_of (messages s) k")
  case None
  then show ?thesis using assms(2) by (simp add: current_def)
next
  case (Some p)
  then have "(k, p) \<in> set (messages s)" by (rule map_of_SomeD)
  with assms(1) have "p < length (heap s)" by (auto simp: wf_def)
  with assms(3) have "heap s' ! p = heap s ! p" by simp
  with Some assms(2) show ?thesis by (simp add: current_def)
qed

lemma events_unchanged:
  assumes "wf s" and "\<forall>p < length (heap s). heap s' ! p = heap s ! p"
  shows "map (\<lambda>p. heap s' ! p) (history s) = events s"
  using assms by (auto simp: events_def wf_def)

lemma filter_key_distinct:
  "distinct (map fst al) \<Longrightarrow> (k, v) \<in> set al \<Longrightarrow> filter (\<lambda>x. fst x = k) al = [(k, v)]"
proof (induction al)
  case Nil
  then show ?case by simp
next
  case (Cons x al)
  show ?case
  proof (cases "fst x = k")
    case True
    with Cons.prems have "x = (k, v)" by (auto simp: image_iff)
    moreover from True Cons.prems have "filter (\<lambda>x. fst x = k) al = []"
      by (auto simp: filter_empty_conv image_iff)
    ultimately show ?thesis by simp
  next
    case False
    with Cons show ?thesis by auto
  qed
qed

lemma members_add_member:
  "set (case map_of (add_member q m qs) q' of None \<Rightarrow> [] | Some ids \<Rightarrow> ids) =
     (if q' = q then insert m (set (case map_of qs q of None \<Rightarrow> [] | Some ids \<Rightarrow> ids))
      else set (case map_of qs q' of None \<Rightarrow> [] | Some ids \<Rightarrow> ids))"
  by (auto simp add: add_member_def update_conv' split: option.splits)

lemma events_send:
  assumes "wf s"
  shows "events (RecordSend u q m b a t_id t_msg s) = events s @
     [\<lparr>ID = fst (generateID t_id s), MessageID = m, ReceiptHandle = [],
       QueueURL = u, QueueName = q, Body = b, Attributes = a,
       Action = ActionSend, Timestamp = t_msg, Deleted = False, DeletedAt = None\<rparr>]"
proof -
  let ?s' = "RecordSend u q m b a t_id t_msg s"
  have h: "history ?s' = history s @ [length (heap s)]"
    and old: "\<forall>p < length (heap s). heap ?s' ! p = heap s ! p"
    by (simp_all add: RecordSend_def generateID_def Let_def nth_append)
  show ?thesis
    using events_unchanged [OF assms old]
    by (simp add: events_def h) (simp add: RecordSend_def generateID_def Let_def)
qed

lemma reachable_sent_m1: "reachable sent_m1"
  unfolding sent_m1_def by (intro reach_op reach_New)

lemma reachable_received_m1: "reachable received_m1"
  unfolding received_m1_def by (intro reach_op reach_New)

lemma reachable_deleted_m1: "reachable deleted_m1"
  unfolding deleted_m1_def by (intro reach_op reachable_received_m1)

lemma reachable_resent_m1: "reachable resent_m1"
  unfolding resent_m1_def by (intro reach_op reachable_deleted_m1)

lemma reachable_moved_m1: "reachable moved_m1"
  unfolding moved_m1_def by (intro reach_op reachable_sent_m1)

lemmas run_defs = sent_m1_def received_m1_def deleted_m1_def resent_m1_def moved_m1_def
  New_def RecordSend_def RecordReceive_def RecordDelete_def generateID_def add_member_def
  Let_def current_def events_def members_def

subsection \<open>Receiving a message that is already known\<close>

text \<open>
  Claim C10. When the store already holds a current-state entry for message id \<open>m\<close>,
  \<^verbatim>\<open>RecordReceive\<close> for \<open>m\<close> leaves the current-state table, every entry read through
  it (so the entry of \<open>m\<close> with all its fields) and the membership sets as they were;
  the history gains one event and the receipt index maps \<open>rh\<close> to \<open>m\<close>.
\<close>

theorem record_receive_keeps_existing_entry:
  assumes "reachable s" and "current s m = Some e"
  shows "let s' = RecordReceive u q m rh b a t1 t2 t3 s
         in messages s' = messages s \<and> queues s' = queues s \<and>
            (\<forall>k. current s' k = current s k) \<and> current s' m = Some e \<and>
            history s' = history s @ [length (heap s)] \<and>
            length (events s') = length (events s) + 1 \<and>
            map_of (receipts s') = (map_of (receipts s))(rh \<mapsto> m)"
proof -
  let ?s' = "RecordReceive u q m rh b a t1 t2 t3 s"
  from assms(1) have wf: "wf s" by (rule reachable_wf)
  from assms(2) obtain p where p: "map_of (messages s) m = Some p"
    by (auto simp: current_def)
  have m: "messages ?s' = messages s" and qs: "queues ?s' = queues s"
    and h: "history ?s' = history s @ [length (heap s)]"
    and hp: "heap ?s' = heap s @ [heap ?s' ! length (heap s)]"
    and r: "receipts ?s' = AList.update rh m (receipts s)"
    using p by (simp_all add: RecordReceive_def generateID_def Let_def)
  have old: "\<forall>p < length (heap s). heap ?s' ! p = heap s ! p"
    by (subst hp) (simp add: nth_append)
  have cur: "\<forall>k. current ?s' k = current s k"
    using current_unchanged [OF wf m old] by simp
  show ?thesis
    using m qs h r cur assms(2) by (simp add: Let_def events_def update_conv')
qed

theorem record_receive_keeps_existing_entry_witness:
  "reachable sent_m1 \<and>
   current sent_m1 ''m1'' = Some (heap sent_m1 ! 0) \<and>
   Body (heap sent_m1 ! 0) = ''hi'' \<and>
   current (RecordReceive ''http://x/q1'' ''q1'' ''m1'' ''rh1'' ''other'' [] t0 t0 t0 sent_m1) ''m1''
     = Some (heap sent_m1 ! 0) \<and>
   history (RecordReceive ''http://x/q1'' ''q1'' ''m1'' ''rh1'' ''other'' [] t0 t0 t0 sent_m1)
     = [0, 1] \<and>
   map_of (receipts (RecordReceive ''http://x/q1'' ''q1'' ''m1'' ''rh1'' ''other'' [] t0 t0 t0 sent_m1))
     ''rh1'' = Some ''m1''"
proof -
  have c: "current sent_m1 ''m1'' = Some (heap sent_m1 ! 0)"
    by (simp add: run_defs)
  have b: "Body (heap sent_m1 ! 0) = ''hi''" and h: "history sent_m1 = [0]"
    and l: "length (heap sent_m1) = 1"
    by (simp_all add: run_defs)
  show ?thesis
    using record_receive_keeps_existing_entry [OF reachable_sent_m1 c,
        of "''http://x/q1''" "''q1''" "''rh1''" "''other''" "[]" t0 t0 t0]
      reachable_sent_m1 c b h l
    by (simp add: Let_def)
qed

subsection \<open>Deleting with an unknown receipt handle\<close>

text \<open>
  Claim C5. When the receipt handle is not in the receipt index, \<^verbatim>\<open>RecordDelete\<close>
  appends exactly one Delete event, with empty message id and body, to the history and
  leaves the current-state table with every entry read through it, the membership sets
  and the receipt index unchanged. The operation has no error result.
\<close>

theorem record_delete_unknown_handle:
  assumes "reachable s" and "map_of (receipts s) rh = None"
  shows "let s' = RecordDelete u q rh now t_id s
         in history s' = history s @ [length (heap s)] \<and>
            events s' = events s @ [\<lparr>ID = fst (generateID t_id s), MessageID = [],
                ReceiptHandle = rh, QueueURL = u, QueueName = q, Body = [], Attributes = [],
                Action = ActionDelete, Timestamp = now, Deleted = False, DeletedAt = None\<rparr>] \<and>
            messages s' = messages s \<and> (\<forall>k. current s' k = current s k) \<and>
            queues s' = queues s \<and> receipts s' = receipts s"
proof -
  let ?s' = "RecordDelete u q rh now t_id s"
  let ?ev = "\<lparr>ID = fst (generateID t_id s), MessageID = [],
                ReceiptHandle = rh, QueueURL = u, QueueName = q, Body = [], Attributes = [],
                Action = ActionDelete, Timestamp = now, Deleted = False, DeletedAt = None\<rparr>"
  from assms(1) have wf: "wf s" by (rule reachable_wf)
  have m: "messages ?s' = messages s" and qs: "queues ?s' = queues s"
    and h: "history ?s' = history s @ [length (heap s)]"
    and hp: "heap ?s' = heap s @ [?ev]"
    and r: "receipts ?s' = receipts s"
    using assms(2) by (simp_all add: RecordDelete_def generateID_def Let_def)
  have old: "\<forall>p < length (heap s). heap ?s' ! p = heap s ! p"
    by (simp add: hp nth_append)
  have cur: "\<forall>k. current ?s' k = current s k"
    using current_unchanged [OF wf m old] by simp
  have ev: "events ?s' = events s @ [?ev]"
    using events_unchanged [OF wf old] by (simp add: events_def h hp)
  show ?thesis
    using m qs h r cur ev by (simp add: Let_def)
qed

theorem record_delete_unknown_handle_witness:
  "reachable received_m1 \<and>
   map_of (receipts received_m1) ''unknown-handle'' = None \<and>
   length (events (RecordDelete ''http://x/q1'' ''q1'' ''unknown-handle'' t0 t0 received_m1))
     = length (events received_m1) + 1 \<and>
   MessageID (last (events (RecordDelete ''http://x/q1'' ''q1'' ''unknown-handle'' t0 t0 received_m1)))
     = [] \<and>
   current (RecordDelete ''http://x/q1'' ''q1'' ''unknown-handle'' t0 t0 received_m1) ''m1''
     = current received_m1 ''m1'' \<and>
   receipts (RecordDelete ''http://x/q1'' ''q1'' ''unknown-handle'' t0 t0 received_m1)
     = [(''rh1'', ''m1'')]"
proof -
  have r: "receipts received_m1 = [(''rh1'', ''m1'')]"
    by (simp add: run_defs)
  then have n: "map_of (receipts received_m1) ''unknown-handle'' = None"
    by simp
  show ?thesis
    using record_delete_unknown_handle [OF reachable_received_m1 n,
        of "''http://x/q1''" "''q1''" t0 t0]
      reachable_received_m1 n r
    by (simp add: Let_def)
qed

subsection \<open>Reading the history\<close>

lemma rev_index_take:
  "lim \<le> length xs \<Longrightarrow> map (\<lambda>i. xs ! (length xs - Suc i)) [0..<lim] = take lim (rev xs)"
  by (rule nth_equalityI) (simp_all add: rev_nth)

text \<open>
  Claim C6. With \<open>N\<close> events in the history, \<^verbatim>\<open>GetHistory(0)\<close> returns all \<open>N\<close> in
  reverse order of appending; for \<open>0 < k < N\<close>, \<^verbatim>\<open>GetHistory(k)\<close> returns the \<open>k\<close> most
  recently appended, most recent first; and a limit that is not positive or exceeds
  \<open>N\<close> returns the full history.
\<close>

theorem get_history_most_recent_first:
  "GetHistory 0 s = rev (history s) \<and>
   length (GetHistory 0 s) = length (history s) \<and>
   (0 < k \<and> k < int (length (history s)) \<longrightarrow>
      GetHistory k s = take (nat k) (rev (history s)) \<and> length (GetHistory k s) = nat k) \<and>
   (limit \<le> 0 \<or> limit > int (length (history s)) \<longrightarrow> GetHistory limit s = rev (history s))"
  by (auto simp: GetHistory_def Let_def rev_index_take)

theorem get_history_most_recent_first_witness:
  "history resent_m1 = [0, 2, 3] \<and>
   GetHistory 0 resent_m1 = [3, 2, 0] \<and>
   GetHistory 2 resent_m1 = [3, 2] \<and>
   GetHistory 7 resent_m1 = [3, 2, 0] \<and>
   GetHistory (- 1) resent_m1 = [3, 2, 0]"
proof -
  have h: "history resent_m1 = [0, 2, 3]"
    by (simp add: run_defs)
  show ?thesis
    using get_history_most_recent_first [of resent_m1 2 7]
      get_history_most_recent_first [of resent_m1 2 "- 1"] h
    by simp
qed

subsection \<open>Recording a send\<close>

text \<open>
  Claim C3. \<^verbatim>\<open>RecordSend\<close> creates a Send event and appends it to the history, makes
  it the current-state entry of the message id (whatever was there before; the other
  entries stay), and adds the id to the membership set of the queue; afterwards
  \<^verbatim>\<open>GetMessages(q, false)\<close> holds exactly one entry with that message id, and it has the
  body sent and \<open>Deleted = False\<close>.
\<close>

theorem record_send_upserts:
  assumes "reachable s"
  shows "let s' = RecordSend u q m b a t_id t_msg s;
             msg = \<lparr>ID = fst (generateID t_id s), MessageID = m, ReceiptHandle = [],
                    QueueURL = u, QueueName = q, Body = b, Attributes = a,
                    Action = ActionSend, Timestamp = t_msg, Deleted = False, DeletedAt = None\<rparr>
         in events s' = events s @ [msg] \<and>
            current s' m = Some msg \<and>
            (\<forall>k. k \<noteq> m \<longrightarrow> current s' k = current s k) \<and>
            set (members s' q) = insert m (set (members s q)) \<and>
            filter (\<lambda>e. MessageID e = m) (map (\<lambda>p. heap s' ! p) (GetMessages q False s')) = [msg]"
proof -
  let ?s' = "RecordSend u q m b a t_id t_msg s"
  let ?msg = "\<lparr>ID = fst (generateID t_id s), MessageID = m, ReceiptHandle = [],
                    QueueURL = u, QueueName = q, Body = b, Attributes = a,
                    Action = ActionSend, Timestamp = t_msg, Deleted = False, DeletedAt = None\<rparr>"
  let ?p = "length (heap s)"
  from assms have wf: "wf s" by (rule reachable_wf)
  then have wf': "wf ?s'" by (rule wf_send)
  have ms: "messages ?s' = AList.update m ?p (messages s)"
    and qs: "queues ?s' = add_member q m (queues s)"
    and hp: "heap ?s' = heap s @ [?msg]"
    by (simp_all add: RecordSend_def generateID_def Let_def)
  have old: "\<forall>p < length (heap s). heap ?s' ! p = heap s ! p"
    by (simp add: hp nth_append)
  have new: "heap ?s' ! ?p = ?msg" by (simp add: hp)
  have ev: "events ?s' = events s @ [?msg]"
    using wf by (rule events_send)
  have cur: "current ?s' m = Some ?msg"
    by (simp add: current_def ms update_conv' new)
  have oth: "current ?s' k = current s k" if "k \<noteq> m" for k
  proof (cases "map_of (messages s) k")
    case None
    with that show ?thesis by (simp add: current_def ms update_conv')
  next
    case (Some p')
    then have "(k, p') \<in> set (messages s)" by (rule map_of_SomeD)
    with wf have "p' < length (heap s)" by (auto simp: wf_def)
    with old have "heap ?s' ! p' = heap s ! p'" by simp
    with Some that show ?thesis by (simp add: current_def ms update_conv')
  qed
  have mem: "set (members ?s' q) = insert m (set (members s q))"
    by (simp add: members_def qs members_add_member)
  have inms: "(m, ?p) \<in> set (messages ?s')"
    by (rule map_of_SomeD) (simp add: ms update_conv')
  have dist: "distinct (map fst (messages ?s'))" using wf' by (simp add: wf_def)
  have key: "MessageID (heap ?s' ! snd x) = fst x" if "x \<in> set (messages ?s')" for x
    using wf' that by (auto simp: wf_def)
  have "filter (\<lambda>e. MessageID e = m) (map (\<lambda>p. heap ?s' ! p) (GetMessages q False ?s'))
      = map (\<lambda>x. heap ?s' ! snd x)
          (filter (\<lambda>x. \<not> (q \<noteq> [] \<and> QueueName (heap ?s' ! snd x) \<noteq> q) \<and> \<not> Deleted (heap ?s' ! snd x))
             (filter (\<lambda>x. fst x = m) (messages ?s')))"
    unfolding GetMessages_def filter_map filter_filter map_map comp_def
    by (rule arg_cong [where f = "map _"], rule filter_cong) (auto simp: key)
  also have "\<dots> = [?msg]"
    by (simp add: filter_key_distinct [OF dist inms] new)
  finally have gm: "filter (\<lambda>e. MessageID e = m)
      (map (\<lambda>p. heap ?s' ! p) (GetMessages q False ?s')) = [?msg]" .
  show ?thesis
    using ev cur oth mem gm by (simp add: Let_def)
qed

theorem record_send_upserts_witness:
  "reachable New \<and>
   map (\<lambda>e. (MessageID e, Body e, Deleted e))
     (filter (\<lambda>e. MessageID e = ''m1'')
        (map (\<lambda>p. heap (RecordSend ''http://x/q1'' ''q1'' ''m1'' ''hi'' [] t0 t0 New) ! p)
           (GetMessages ''q1'' False (RecordSend ''http://x/q1'' ''q1'' ''m1'' ''hi'' [] t0 t0 New))))
     = [(''m1'', ''hi'', False)] \<and>
   map Action (events (RecordSend ''http://x/q1'' ''q1'' ''m1'' ''hi'' [] t0 t0 New)) = [ActionSend] \<and>
   set (members (RecordSend ''http://x/q1'' ''q1'' ''m1'' ''hi'' [] t0 t0 New) ''q1'') = {''m1''}"
proof -
  have e: "events New = []" and m: "members New ''q1'' = []"
    by (simp_all add: events_def members_def New_def)
  show ?thesis
    using record_send_upserts [OF reach_New, of "''http://x/q1''" "''q1''" "''m1''" "''hi''" "[]" t0 t0]
      reach_New e m
    by (simp add: Let_def)
qed

subsection \<open>Recording a receive\<close>

text \<open>
  Claim C4. \<^verbatim>\<open>RecordReceive\<close> appends exactly one Receive event to the history and
  makes the receipt index map \<open>rh\<close> to \<open>m\<close> whatever it held for \<open>rh\<close> before. If there
  was no current-state entry for \<open>m\<close>, one is created and \<open>m\<close> joins the membership set
  of \<open>q\<close>; if there was one, the current-state table and the membership sets stay as
  they were.
\<close>

theorem record_receive_effect:
  assumes "reachable s"
  shows "let s' = RecordReceive u q m rh b a t_id t_event t_msg s;
             event = \<lparr>ID = fst (generateID t_id s), MessageID = m, ReceiptHandle = rh,
                      QueueURL = u, QueueName = q, Body = b, Attributes = a,
                      Action = ActionReceive, Timestamp = t_event, Deleted = False,
                      DeletedAt = None\<rparr>
         in events s' = events s @ [event] \<and>
            map_of (receipts s') = (map_of (receipts s))(rh \<mapsto> m) \<and>
            (current s m = None \<longrightarrow>
               current s' m = Some (event\<lparr>Timestamp := t_msg\<rparr>) \<and>
               set (members s' q) = insert m (set (members s q)) \<and>
               (\<forall>k. k \<noteq> m \<longrightarrow> current s' k = current s k)) \<and>
            (current s m \<noteq> None \<longrightarrow>
               messages s' = messages s \<and> queues s' = queues s \<and>
               (\<forall>k. current s' k = current s k))"
proof -
  let ?s' = "RecordReceive u q m rh b a t_id t_event t_msg s"
  let ?ev = "\<lparr>ID = fst (generateID t_id s), MessageID = m, ReceiptHandle = rh,
                      QueueURL = u, QueueName = q, Body = b, Attributes = a,
                      Action = ActionReceive, Timestamp = t_event, Deleted = False,
                      DeletedAt = None\<rparr>"
  let ?p = "length (heap s)"
  from assms have wf: "wf s" by (rule reachable_wf)
  have h: "history ?s' = history s @ [?p]"
    and r: "receipts ?s' = AList.update rh m (receipts s)"
    by (simp_all add: RecordReceive_def generateID_def Let_def split: option.split)
  have old: "\<forall>p < length (heap s). heap ?s' ! p = heap s ! p"
    and new: "heap ?s' ! ?p = ?ev"
    by (simp_all add: RecordReceive_def generateID_def Let_def nth_append split: option.split)
  have ev: "events ?s' = events s @ [?ev]"
    using events_unchanged [OF wf old] by (simp add: events_def h new)
  have rc: "map_of (receipts ?s') = (map_of (receipts s))(rh \<mapsto> m)"
    by (simp add: r update_conv')
  have fresh: "current ?s' m = Some (?ev\<lparr>Timestamp := t_msg\<rparr>) \<and>
               set (members ?s' q) = insert m (set (members s q)) \<and>
               (\<forall>k. k \<noteq> m \<longrightarrow> current ?s' k = current s k)" if none: "current s m = None"
  proof -
    from none have n: "map_of (messages s) m = None" by (simp add: current_def)
    have ms: "messages ?s' = AList.update m (Suc ?p) (messages s)"
      and qs: "queues ?s' = add_member q m (queues s)"
      and hp: "heap ?s' ! Suc ?p = ?ev\<lparr>Timestamp := t_msg\<rparr>"
      using n by (simp_all add: RecordReceive_def generateID_def Let_def nth_append)
    have "current ?s' k = current s k" if "k \<noteq> m" for k
    proof (cases "map_of (messages s) k")
      case None
      with that show ?thesis by (simp add: current_def ms update_conv')
    next
      case (Some p')
      then have "(k, p') \<in> set (messages s)" by (rule map_of_SomeD)
      with wf have "p' < length (heap s)" by (auto simp: wf_def)
      with old have "heap ?s' ! p' = heap s ! p'" by simp
      with Some that show ?thesis by (simp add: current_def ms update_conv')
    qed
    then show ?thesis
      by (simp add: current_def ms update_conv' hp members_def qs members_add_member)
  qed
  have seen: "messages ?s' = messages s \<and> queues ?s' = queues s \<and>
               (\<forall>k. current ?s' k = current s k)" if some: "current s m \<noteq> None"
  proof -
    from some obtain p where p: "map_of (messages s) m = Some p"
      by (auto simp: current_def)
    have ms: "messages ?s' = messages s" and qs: "queues ?s' = queues s"
      using p by (simp_all add: RecordReceive_def generateID_def Let_def)
    show ?thesis using ms qs current_unchanged [OF wf ms old] by simp
  qed
  show ?thesis
    using ev rc fresh seen by (simp add: Let_def)
qed

theorem record_receive_effect_witness:
  "reachable New \<and> current New ''m1'' = None \<and>
   map_option Body (current (RecordReceive ''http://x/q1'' ''q1'' ''m1'' ''rh1'' ''hi'' [] t0 t0 t0 New) ''m1'')
     = Some ''hi'' \<and>
   set (members (RecordReceive ''http://x/q1'' ''q1'' ''m1'' ''rh1'' ''hi'' [] t0 t0 t0 New) ''q1'')
     = {''m1''} \<and>
   reachable received_m1 \<and> current received_m1 ''m1'' \<noteq> None \<and>
   messages (RecordReceive ''http://x/q1'' ''q2'' ''m1'' ''rh1'' ''new'' [] t0 t0 t0 received_m1)
     = messages received_m1 \<and>
   queues (RecordReceive ''http://x/q1'' ''q2'' ''m1'' ''rh1'' ''new'' [] t0 t0 t0 received_m1)
     = queues received_m1 \<and>
   map_of (receipts (RecordReceive ''http://x/q1'' ''q2'' ''m1'' ''rh1'' ''new'' [] t0 t0 t0 received_m1))
     ''rh1'' = Some ''m1''"
proof -
  have n: "current New ''m1'' = None" and m: "members New ''q1'' = []"
    by (simp_all add: current_def members_def New_def)
  have c: "current received_m1 ''m1'' \<noteq> None"
    by (simp add: run_defs)
  show ?thesis
    using record_receive_effect [OF reach_New,
        of "''http://x/q1''" "''q1''" "''m1''" "''rh1''" "''hi''" "[]" t0 t0 t0]
      record_receive_effect [OF reachable_received_m1,
        of "''http://x/q1''" "''q2''" "''m1''" "''rh1''" "''new''" "[]" t0 t0 t0]
      reach_New reachable_received_m1 n m c
    by (simp add: Let_def)
qed

subsection \<open>The deleted flag\<close>

lemma heap_grows:
  "wf s \<Longrightarrow> p < length (heap s) \<Longrightarrow> Deleted (heap s ! p) \<Longrightarrow>
     p < length (heap (apply_op x s)) \<and> Deleted (heap (apply_op x s) ! p)"
  by (cases x)
     (auto simp: RecordSend_def RecordReceive_def RecordDelete_def Clear_def generateID_def
        Let_def nth_append nth_upd split: option.splits)

lemma messages_kept:
  "x \<noteq> OpClear \<Longrightarrow> \<not> sends_id m x \<Longrightarrow> map_of (messages s) m = Some p \<Longrightarrow>
     map_of (messages (apply_op x s)) m = Some p"
  by (cases x)
     (auto simp: RecordSend_def RecordReceive_def RecordDelete_def generateID_def
        Let_def update_conv' split: option.splits)

lemma object_stays_deleted:
  "wf s \<Longrightarrow> p < length (heap s) \<Longrightarrow> Deleted (heap s ! p) \<Longrightarrow>
     p < length (heap (run ops s)) \<and> Deleted (heap (run ops s) ! p)"
proof (induction ops arbitrary: s)
  case Nil
  then show ?case by (simp add: run_def)
next
  case (Cons x ops)
  from heap_grows [OF Cons.prems] wf_apply_op [OF Cons.prems(1)]
  have "p < length (heap (run ops (apply_op x s))) \<and> Deleted (heap (run ops (apply_op x s)) ! p)"
    by (intro Cons.IH) auto
  then show ?case by (simp add: run_def)
qed

lemma entry_kept:
  "\<forall>x \<in> set ops. x \<noteq> OpClear \<and> \<not> sends_id m x \<Longrightarrow> map_of (messages s) m = Some p \<Longrightarrow>
     map_of (messages (run ops s)) m = Some p"
proof (induction ops arbitrary: s)
  case Nil
  then show ?case by (simp add: run_def)
next
  case (Cons x ops)
  from Cons.prems have "map_of (messages (apply_op x s)) m = Some p"
    by (intro messages_kept) auto
  with Cons.prems have "map_of (messages (run ops (apply_op x s))) m = Some p"
    by (intro Cons.IH) auto
  then show ?case by (simp add: run_def)
qed

text \<open>
  Claim C1, as the code has it. Once a current-state entry has \<open>Deleted = True\<close>, no
  sequence of operations sets the flag of that \<^verbatim>\<open>Message\<close> object back to false; and
  after any sequence of \<^verbatim>\<open>RecordReceive\<close> and \<^verbatim>\<open>RecordDelete\<close> calls and \<^verbatim>\<open>RecordSend\<close>
  calls for other message ids, the current-state entry of the id still has
  \<open>Deleted = True\<close>. (A \<^verbatim>\<open>RecordSend\<close> for the same id puts a new object in its place.)
\<close>

theorem deleted_flag_persists:
  assumes "reachable s" and "map_of (messages s) m = Some p" and "Deleted (heap s ! p)"
  shows "Deleted (heap (run ops s) ! p) \<and>
         ((\<forall>x \<in> set ops. x \<noteq> OpClear \<and> \<not> sends_id m x) \<longrightarrow>
            map_option Deleted (current (run ops s) m) = Some True)"
proof -
  from assms(1) have wf: "wf s" by (rule reachable_wf)
  from assms(2) have "(m, p) \<in> set (messages s)" by (rule map_of_SomeD)
  with wf have p: "p < length (heap s)" by (auto simp: wf_def)
  from object_stays_deleted [OF wf p assms(3)]
  have d: "Deleted (heap (run ops s) ! p)" by simp
  show ?thesis
    using d entry_kept [OF _ assms(2)] by (auto simp: current_def)
qed

theorem deleted_flag_persists_witness:
  "reachable deleted_m1 \<and> map_of (messages deleted_m1) ''m1'' = Some 1 \<and>
   Deleted (heap deleted_m1 ! 1) \<and>
   map_option Deleted
     (current (run [OpReceive ''http://x/q1'' ''q1'' ''m1'' ''rh2'' ''hi'' [] t0 t0 t0,
                    OpSend ''http://x/q1'' ''q1'' ''m2'' ''yo'' [] t0 t0,
                    OpDelete ''http://x/q1'' ''q1'' ''rh2'' t0 t0] deleted_m1) ''m1'') = Some True"
proof -
  have m: "map_of (messages deleted_m1) ''m1'' = Some 1"
    and d: "Deleted (heap deleted_m1 ! 1)"
    by (simp_all add: run_defs)
  show ?thesis
    using deleted_flag_persists [OF reachable_deleted_m1 m d,
        of "[OpReceive ''http://x/q1'' ''q1'' ''m1'' ''rh2'' ''hi'' [] t0 t0 t0,
             OpSend ''http://x/q1'' ''q1'' ''m2'' ''yo'' [] t0 t0,
             OpDelete ''http://x/q1'' ''q1'' ''rh2'' t0 t0]"]
      reachable_deleted_m1 m d
    by simp
qed

text \<open>
  The claim as stated fails: after a receive and a delete of \<open>m1\<close> its entry is marked
  deleted, and one more \<^verbatim>\<open>RecordSend\<close> for \<open>m1\<close> leaves an entry that is not.
\<close>

theorem send_resets_deleted_flag:
  "map_option Deleted (current deleted_m1 ''m1'') = Some True \<and>
   resent_m1 = RecordSend ''http://x/q1'' ''q1'' ''m1'' ''hi'' [] t0 t0 deleted_m1 \<and>
   map_option Deleted (current resent_m1 ''m1'') = Some False"
  by (simp add: run_defs)

subsection \<open>Event identifiers\<close>

lemma counter_run:
  "idCounter (run (replicate n (OpSend u q m b a t1 t2)) s) = idCounter s + of_nat n"
  by (induction n arbitrary: s) (simp_all add: run_def RecordSend_def generateID_def Let_def)

text \<open>
  Claim C2 fails on the code. \<^verbatim>\<open>generateID\<close> appends \<^verbatim>\<open>string(rune(idCounter))\<close> to the
  time in seconds, and every counter value in the surrogate range becomes U+FFFD: the
  events number 55296 and 55297 of a store, recorded within one second, get the same
  identifier.
\<close>

theorem generateID_collision:
  "\<exists>e1 e2. events (run (replicate 55297 (OpSend u q m b a t t')) New) =
             events (run (replicate 55295 (OpSend u q m b a t t')) New) @ [e1, e2] \<and>
           ID e1 = ID e2"
proof -
  let ?x = "OpSend u q m b a t t'"
  let ?s = "\<lambda>n. run (replicate n ?x) New"
  have wf: "wf (?s n)" for n
    by (rule wf_run) (rule wf_New)
  have r: "?s (Suc n) = RecordSend u q m b a t t' (?s n)" for n
  proof -
    have "replicate (Suc n) ?x = replicate n ?x @ [?x]"
      by (simp add: replicate_append_same)
    then show ?thesis
      by (simp only: run_snoc apply_op.simps)
  qed
  have c: "idCounter (?s n) = of_nat n" for n
    by (simp add: counter_run New_def)
  have step: "events (?s (Suc n)) = events (?s n) @
     [\<lparr>ID = fst (generateID t (?s n)), MessageID = m, ReceiptHandle = [],
       QueueURL = u, QueueName = q, Body = b, Attributes = a,
       Action = ActionSend, Timestamp = t', Deleted = False, DeletedAt = None\<rparr>]" for n
    unfolding r by (rule events_send [OF wf])
  have "events (?s (Suc (Suc 55295))) = events (?s 55295) @
     [\<lparr>ID = fst (generateID t (?s 55295)), MessageID = m, ReceiptHandle = [],
       QueueURL = u, QueueName = q, Body = b, Attributes = a,
       Action = ActionSend, Timestamp = t', Deleted = False, DeletedAt = None\<rparr>,
      \<lparr>ID = fst (generateID t (?s (Suc 55295))), MessageID = m, ReceiptHandle = [],
       QueueURL = u, QueueName = q, Body = b, Attributes = a,
       Action = ActionSend, Timestamp = t', Deleted = False, DeletedAt = None\<rparr>]"
    by (simp only: step append_assoc append_Cons append_Nil)
  moreover have "fst (generateID t (?s 55295)) = fst (generateID t (?s (Suc 55295)))"
    by (simp add: generateID_def c Let_def rune_of_int64_def string_of_rune_def)
  ultimately show ?thesis by simp
qed

subsection \<open>Queue statistics\<close>

lemma members_add_member_mono:
  "set (case map_of qs q' of None \<Rightarrow> [] | Some ids \<Rightarrow> ids)
     \<subseteq> set (case map_of (add_member q m qs) q' of None \<Rightarrow> [] | Some ids \<Rightarrow> ids)"
  unfolding members_add_member by auto

lemma linked_extend:
  assumes wf: "wf s" and l: "linked s"
    and ms: "messages s' = AList.update m p' (messages s)"
    and qs: "queues s' = add_member q m (queues s)"
    and old: "\<forall>p < length (heap s). heap s' ! p = heap s ! p"
    and new: "QueueName (heap s' ! p') = q"
  shows "linked s'"
  unfolding linked_def
proof clarify
  fix k p
  assume "(k, p) \<in> set (messages s')"
  then have "(k = m \<and> p = p') \<or> (k, p) \<in> set (messages s)"
    unfolding ms by (rule in_set_updateD)
  then show "k \<in> set (members s' (QueueName (heap s' ! p)))"
  proof
    assume "k = m \<and> p = p'"
    then show ?thesis
      by (simp add: new members_def qs members_add_member)
  next
    assume in_old: "(k, p) \<in> set (messages s)"
    with wf have "p < length (heap s)" by (auto simp: wf_def)
    with old have "heap s' ! p = heap s ! p" by simp
    moreover from l in_old have "k \<in> set (members s (QueueName (heap s ! p)))"
      by (auto simp: linked_def)
    ultimately show ?thesis
      using members_add_member_mono [of "queues s" "QueueName (heap s ! p)" q m]
      by (auto simp: members_def qs)
  qed
qed

lemma linked_same:
  assumes "linked s" and "messages s' = messages s" and "queues s' = queues s"
    and "\<forall>(k, p) \<in> set (messages s). QueueName (heap s' ! p) = QueueName (heap s ! p)"
  shows "linked s'"
proof -
  have m: "members s' q = members s q" for q
    using assms(3) by (simp add: members_def)
  show ?thesis
    unfolding linked_def m using assms(1,2,4) by (fastforce simp: linked_def)
qed

lemma linked_send: "wf s \<Longrightarrow> linked s \<Longrightarrow> linked (RecordSend u q m b a t1 t2 s)"
  by (erule (1) linked_extend [where m = m and q = q and p' = "length (heap s)"])
     (simp_all add: RecordSend_def generateID_def Let_def nth_append)

lemma linked_receive:
  assumes "wf s" and "linked s"
  shows "linked (RecordReceive u q m rh b a t1 t2 t3 s)"
proof (cases "map_of (messages s) m")
  case None
  show ?thesis
    by (rule linked_extend [OF assms, where m = m and q = q and p' = "Suc (length (heap s))"])
       (simp_all add: RecordReceive_def generateID_def Let_def nth_append None)
next
  case (Some p)
  have "\<forall>(k, p) \<in> set (messages s). p < length (heap s)"
    using assms(1) by (auto simp: wf_def)
  then show ?thesis
    by (intro linked_same [OF assms(2)])
       (auto simp: RecordReceive_def generateID_def Let_def nth_append Some)
qed

lemma linked_delete:
  assumes "wf s" and "linked s"
  shows "linked (RecordDelete u q rh t1 t2 s)"
proof -
  have "\<forall>(k, p) \<in> set (messages s). p < length (heap s)"
    using assms(1) by (auto simp: wf_def)
  then show ?thesis
    by (intro linked_same [OF assms(2)])
       (auto simp: RecordDelete_def generateID_def Let_def nth_append nth_upd
          split: option.splits)
qed

lemma linked_apply_op: "wf s \<Longrightarrow> linked s \<Longrightarrow> linked (apply_op x s)"
  by (cases x) (simp_all add: linked_send linked_receive linked_delete, simp add: linked_def Clear_def)

lemma reachable_linked: "reachable s \<Longrightarrow> linked s"
proof (induction rule: reachable.induct)
  case reach_New
  show ?case by (simp add: linked_def New_def)
next
  case (reach_op s x)
  then show ?case by (simp add: linked_apply_op reachable_wf)
qed

lemma count_kind_absent: "q \<notin> QueueName ` set evs \<Longrightarrow> count_kind a q evs = 0"
  by (auto simp: count_kind_def filter_empty_conv)

lemma count_kind_snoc:
  "count_kind a q (evs @ [e]) =
     count_kind a q evs + (if Action e = a \<and> QueueName e = q then 1 else 0)"
  by (simp add: count_kind_def)

lemma counted_tally:
  assumes "counted evs st"
  shows "counted (evs @ [e]) (tally e st)"
proof -
  let ?q = "QueueName e"
  let ?r0 = "case map_of st ?q of
               None \<Rightarrow> \<lparr>statQueueName = ?q, statQueueURL = QueueURL e,
                         TotalSent = 0, TotalReceived = 0, TotalDeleted = 0, Pending = 0\<rparr>
             | Some st \<Rightarrow> st"
  have t: "tally e st = AList.update ?q (count_event e ?r0) st"
    by (simp add: tally_def Let_def)
  from assms have d: "distinct (map fst st)" and k: "fst ` set st = QueueName ` set evs"
    and c: "\<And>q r. map_of st q = Some r \<Longrightarrow>
        statQueueName r = q \<and> TotalSent r = count_kind ActionSend q evs \<and>
        TotalReceived r = count_kind ActionReceive q evs \<and>
        TotalDeleted r = count_kind ActionDelete q evs \<and> Pending r = 0"
    by (auto simp: counted_def)
  have r0: "statQueueName ?r0 = ?q \<and> TotalSent ?r0 = count_kind ActionSend ?q evs \<and>
        TotalReceived ?r0 = count_kind ActionReceive ?q evs \<and>
        TotalDeleted ?r0 = count_kind ActionDelete ?q evs \<and> Pending ?r0 = 0"
  proof (cases "map_of st ?q")
    case None
    then have "?q \<notin> QueueName ` set evs"
      using k by (simp add: map_of_eq_None_iff)
    then show ?thesis using None by (simp add: count_kind_absent)
  next
    case (Some r)
    then show ?thesis using c [OF Some] by simp
  qed
  have new: "statQueueName (count_event e ?r0) = ?q \<and>
        TotalSent (count_event e ?r0) = count_kind ActionSend ?q (evs @ [e]) \<and>
        TotalReceived (count_event e ?r0) = count_kind ActionReceive ?q (evs @ [e]) \<and>
        TotalDeleted (count_event e ?r0) = count_kind ActionDelete ?q (evs @ [e]) \<and>
        Pending (count_event e ?r0) = 0"
    using r0 by (cases "Action e") (simp_all add: count_event_def count_kind_snoc)
  have "distinct (map fst (tally e st))"
    using d by (simp add: t distinct_update)
  moreover have "fst ` set (tally e st) = QueueName ` set (evs @ [e])"
    using k by (auto simp: t dom_update)
  moreover have "statQueueName r = q \<and> TotalSent r = count_kind ActionSend q (evs @ [e]) \<and>
        TotalReceived r = count_kind ActionReceive q (evs @ [e]) \<and>
        TotalDeleted r = count_kind ActionDelete q (evs @ [e]) \<and> Pending r = 0"
    if "map_of (tally e st) q = Some r" for q r
  proof (cases "q = ?q")
    case True
    with that have "r = count_event e ?r0" by (simp add: t update_conv')
    with new True show ?thesis by simp
  next
    case False
    with that have "map_of st q = Some r" by (simp add: t update_conv')
    from c [OF this] False show ?thesis by (simp add: count_kind_snoc)
  qed
  ultimately show ?thesis unfolding counted_def by blast
qed

lemma counted_fold: "counted evs (fold tally evs [])"
proof (induction evs rule: rev_induct)
  case Nil
  show ?case by (simp add: counted_def)
next
  case (snoc e evs)
  then show ?case by (simp add: counted_tally)
qed

text \<open>The second loop changes \<^verbatim>\<open>Pending\<close> only, for the queues that have members.\<close>

lemma set_pending_keys: "map fst (set_pending s entry st) = map fst st"
  by (auto simp: set_pending_def update_keys map_of_eq_None_iff split: option.splits
      dest!: map_of_SomeD)

lemma fold_set_pending_keys: "map fst (fold (set_pending s) qs st) = map fst st"
  by (induction qs arbitrary: st) (simp_all add: set_pending_keys)

lemma map_of_set_pending:
  "map_of (set_pending s entry st) q =
     (if q = fst entry then map_option (\<lambda>r. r\<lparr>Pending := pending_of s (snd entry)\<rparr>) (map_of st q)
      else map_of st q)"
  by (auto simp: set_pending_def update_conv' split: option.splits)

lemma map_of_fold_set_pending:
  "distinct (map fst qs) \<Longrightarrow>
   map_of (fold (set_pending s) qs st) q =
     map_option (\<lambda>r. case map_of qs q of None \<Rightarrow> r | Some ids \<Rightarrow> r\<lparr>Pending := pending_of s ids\<rparr>)
       (map_of st q)"
proof (induction qs arbitrary: st)
  case Nil
  show ?case by (simp add: option.map_ident)
next
  case (Cons entry qs)
  from Cons.prems have d: "distinct (map fst qs)" and n: "map_of qs (fst entry) = None"
    by (auto simp: map_of_eq_None_iff)
  show ?case
  proof (cases "q = fst entry")
    case True
    then show ?thesis
      using Cons.IH [OF d, of "set_pending s entry st"] n
      by (cases entry) (simp add: map_of_set_pending option.map_comp comp_def)
  next
    case False
    then show ?thesis
      using Cons.IH [OF d, of "set_pending s entry st"]
      by (cases entry) (simp add: map_of_set_pending)
  qed
qed

lemma pending_of_live: "pending_of s ids = length (filter (live s) ids)"
  unfolding pending_of_def live_def current_def
  by (rule arg_cong [where f = length], rule filter_cong) (auto split: option.splits)

lemma stats_table:
  assumes "wf s"
  defines "st \<equiv> fold (set_pending s) (queues s) (fold (\<lambda>p. tally (heap s ! p)) (history s) [])"
  shows "GetQueueStats s = map snd st"
    and "distinct (map fst st)"
    and "fst ` set st = QueueName ` set (events s)"
    and "map_of st q = Some r \<Longrightarrow>
           statQueueName r = q \<and> TotalSent r = count_kind ActionSend q (events s) \<and>
           TotalReceived r = count_kind ActionReceive q (events s) \<and>
           TotalDeleted r = count_kind ActionDelete q (events s) \<and>
           Pending r = length (filter (live s) (members s q))"
proof -
  let ?st0 = "fold tally (events s) []"
  have f: "fold (\<lambda>p. tally (heap s ! p)) (history s) [] = ?st0"
    by (simp add: events_def fold_map comp_def)
  have c: "counted (events s) ?st0" by (rule counted_fold)
  from assms(1) have dq: "distinct (map fst (queues s))" by (simp add: wf_def)
  show "GetQueueStats s = map snd st"
    by (simp add: GetQueueStats_def st_def Let_def)
  have keys: "map fst st = map fst ?st0"
    by (simp add: st_def f fold_set_pending_keys)
  show "distinct (map fst st)"
    using c keys by (simp add: counted_def)
  have "set (map fst st) = set (map fst ?st0)" using keys by simp
  then show "fst ` set st = QueueName ` set (events s)"
    using c by (simp add: counted_def)
  assume "map_of st q = Some r"
  then obtain r0 where r0: "map_of ?st0 q = Some r0"
    and r: "r = (case map_of (queues s) q of None \<Rightarrow> r0
                 | Some ids \<Rightarrow> r0\<lparr>Pending := pending_of s ids\<rparr>)"
    by (auto simp: st_def f map_of_fold_set_pending [OF dq])
  from c r0 have p: "statQueueName r0 = q \<and> TotalSent r0 = count_kind ActionSend q (events s) \<and>
        TotalReceived r0 = count_kind ActionReceive q (events s) \<and>
        TotalDeleted r0 = count_kind ActionDelete q (events s) \<and> Pending r0 = 0"
    by (simp add: counted_def)
  show "statQueueName r = q \<and> TotalSent r = count_kind ActionSend q (events s) \<and>
           TotalReceived r = count_kind ActionReceive q (events s) \<and>
           TotalDeleted r = count_kind ActionDelete q (events s) \<and>
           Pending r = length (filter (live s) (members s q))"
    using p by (simp add: r members_def pending_of_live split: option.splits)
qed

lemma members_distinct: "wf s \<Longrightarrow> distinct (members s q)"
  by (auto simp: wf_def members_def split: option.splits dest!: map_of_SomeD)

lemma length_filter_card:
  assumes "distinct xs"
  shows "length (filter P xs) = card {x \<in> set xs. P x}"
proof -
  from assms have "distinct (filter P xs)" by simp
  then have "card (set (filter P xs)) = length (filter P xs)" by (rule distinct_card)
  then show ?thesis by simp
qed

lemma pending_is_entry_count:
  assumes wf: "wf s" and l: "linked s"
    and h: "\<forall>m \<in> set (members s q). \<forall>e. current s m = Some e \<longrightarrow> QueueName e = q"
  shows "card {m \<in> set (members s q). live s m} =
         length (filter (\<lambda>e. QueueName e = q \<and> \<not> Deleted e)
                   (map (\<lambda>p. heap s ! p) (map snd (messages s))))"
proof -
  define Q where "Q = (\<lambda>x :: string \<times> nat. QueueName (heap s ! snd x) = q \<and> \<not> Deleted (heap s ! snd x))"
  define B where "B = {x \<in> set (messages s). Q x}"
  define A where "A = {m \<in> set (members s q). live s m}"
  from wf have dk: "distinct (map fst (messages s))" by (simp add: wf_def)
  then have dm: "distinct (messages s)" and inj: "inj_on fst (set (messages s))"
    by (simp_all add: distinct_map)
  have cur: "current s k = Some (heap s ! p)" if "(k, p) \<in> set (messages s)" for k p
    using dk that by (simp add: current_def)
  have "fst ` B = A"
  proof (intro set_eqI iffI)
    fix m
    assume "m \<in> fst ` B"
    then obtain p where in_ms: "(m, p) \<in> set (messages s)" and q: "Q (m, p)"
      unfolding B_def by auto
    from q have qn: "QueueName (heap s ! p) = q" and nd: "\<not> Deleted (heap s ! p)"
      by (simp_all add: Q_def)
    from l in_ms have "m \<in> set (members s (QueueName (heap s ! p)))"
      unfolding linked_def by blast
    then have "m \<in> set (members s q)" by (simp only: qn)
    moreover have "live s m" using cur [OF in_ms] nd by (simp add: live_def)
    ultimately show "m \<in> A" by (simp add: A_def)
  next
    fix m
    assume "m \<in> A"
    then have mem: "m \<in> set (members s q)" and lv: "live s m" by (simp_all add: A_def)
    from lv obtain p where p: "map_of (messages s) m = Some p" and nd: "\<not> Deleted (heap s ! p)"
      by (auto simp: live_def current_def split: option.splits)
    from p have in_ms: "(m, p) \<in> set (messages s)" by (rule map_of_SomeD)
    from h mem cur [OF in_ms] have "QueueName (heap s ! p) = q" by blast
    with nd have "Q (m, p)" by (simp add: Q_def)
    with in_ms have "(m, p) \<in> B" by (simp add: B_def)
    then have "fst (m, p) \<in> fst ` B" by (rule imageI)
    then show "m \<in> fst ` B" by simp
  qed
  moreover have "inj_on fst B"
    by (rule inj_on_subset [OF inj]) (simp add: B_def)
  then have "card (fst ` B) = card B" by (rule card_image)
  ultimately have "card A = card B" by simp
  also have "card B = length (filter Q (messages s))"
    unfolding B_def by (rule length_filter_card [OF dm, symmetric])
  also have "\<dots> = length (filter (\<lambda>e. QueueName e = q \<and> \<not> Deleted e)
                   (map (\<lambda>p. heap s ! p) (map snd (messages s))))"
    by (simp add: filter_map comp_def Q_def)
  finally show ?thesis by (simp only: A_def)
qed

text \<open>
  Claim C7, as the code has it. \<^verbatim>\<open>GetQueueStats\<close> returns one entry per queue name
  that occurs in a history event and no others; its sent, received and deleted totals
  are the numbers of history events of that kind with that queue name; and its pending
  count is the number of message ids in the membership set of the queue whose
  current-state entry is not marked deleted. Where every member of the queue still has
  its current-state entry under that queue name, this is the number of current-state
  entries for the queue name that are not marked deleted.
\<close>

theorem queue_stats_counts:
  assumes "reachable s"
  shows "distinct (map statQueueName (GetQueueStats s)) \<and>
         set (map statQueueName (GetQueueStats s)) = QueueName ` set (events s) \<and>
         (\<forall>r \<in> set (GetQueueStats s).
            TotalSent r = count_kind ActionSend (statQueueName r) (events s) \<and>
            TotalReceived r = count_kind ActionReceive (statQueueName r) (events s) \<and>
            TotalDeleted r = count_kind ActionDelete (statQueueName r) (events s) \<and>
            Pending r = card {m \<in> set (members s (statQueueName r)). live s m} \<and>
            ((\<forall>m \<in> set (members s (statQueueName r)).
                 \<forall>e. current s m = Some e \<longrightarrow> QueueName e = statQueueName r) \<longrightarrow>
               Pending r = length (filter (\<lambda>e. QueueName e = statQueueName r \<and> \<not> Deleted e)
                                     (map (\<lambda>p. heap s ! p) (map snd (messages s))))))"
proof (intro conjI ballI impI)
  define st where
    "st = fold (set_pending s) (queues s) (fold (\<lambda>p. tally (heap s ! p)) (history s) [])"
  from assms have wf: "wf s" by (rule reachable_wf)
  from assms have l: "linked s" by (rule reachable_linked)
  note tab = stats_table [OF wf, folded st_def]
  have entry: "statQueueName r = q \<and>
           TotalSent r = count_kind ActionSend q (events s) \<and>
           TotalReceived r = count_kind ActionReceive q (events s) \<and>
           TotalDeleted r = count_kind ActionDelete q (events s) \<and>
           Pending r = length (filter (live s) (members s q))" if "(q, r) \<in> set st" for q r
  proof -
    from tab(2) that have "map_of st q = Some r" by simp
    then show ?thesis by (rule tab(4))
  qed
  have name: "statQueueName (snd x) = fst x" if "x \<in> set st" for x
    using entry [of "fst x" "snd x"] that by simp
  have names: "map statQueueName (GetQueueStats s) = map fst st"
    unfolding tab(1) map_map comp_def by (rule map_cong [OF refl]) (rule name)
  show "distinct (map statQueueName (GetQueueStats s))"
    unfolding names by (rule tab(2))
  show "set (map statQueueName (GetQueueStats s)) = QueueName ` set (events s)"
    unfolding names using tab(3) by simp
  fix r
  assume "r \<in> set (GetQueueStats s)"
  then obtain q where "(q, r) \<in> set st"
    unfolding tab(1) by auto
  from entry [OF this] have e: "statQueueName r = q"
    and t: "TotalSent r = count_kind ActionSend q (events s)"
      "TotalReceived r = count_kind ActionReceive q (events s)"
      "TotalDeleted r = count_kind ActionDelete q (events s)"
    and p: "Pending r = length (filter (live s) (members s q))"
    by simp_all
  have c: "Pending r = card {m \<in> set (members s q). live s m}"
    unfolding p by (rule length_filter_card [OF members_distinct [OF wf]])
  show "TotalSent r = count_kind ActionSend (statQueueName r) (events s)"
    unfolding e by (rule t)
  show "TotalReceived r = count_kind ActionReceive (statQueueName r) (events s)"
    unfolding e by (rule t)
  show "TotalDeleted r = count_kind ActionDelete (statQueueName r) (events s)"
    unfolding e by (rule t)
  show "Pending r = card {m \<in> set (members s (statQueueName r)). live s m}"
    unfolding e by (rule c)
  assume "\<forall>m \<in> set (members s (statQueueName r)).
            \<forall>e. current s m = Some e \<longrightarrow> QueueName e = statQueueName r"
  then have "\<forall>m \<in> set (members s q). \<forall>e. current s m = Some e \<longrightarrow> QueueName e = q"
    unfolding e .
  from pending_is_entry_count [OF wf l this]
  show "Pending r = length (filter (\<lambda>e. QueueName e = statQueueName r \<and> \<not> Deleted e)
                              (map (\<lambda>p. heap s ! p) (map snd (messages s))))"
    unfolding e c .
qed
lemma reachable_busy_q1: "reachable busy_q1"
  unfolding busy_q1_def by (intro reachable_run reach_New)

theorem queue_stats_counts_witness:
  "reachable busy_q1 \<and>
   map (\<lambda>r. (statQueueName r, TotalSent r, TotalReceived r, TotalDeleted r, Pending r))
     (GetQueueStats busy_q1) = [(''q1'', 3, 2, 1, 2)] \<and>
   map Action (events busy_q1) =
     [ActionSend, ActionSend, ActionSend, ActionReceive, ActionReceive, ActionDelete] \<and>
   members busy_q1 ''q1'' = [''m3'', ''m2'', ''m1''] \<and>
   map (\<lambda>m. (m, live busy_q1 m)) (members busy_q1 ''q1'') =
     [(''m3'', True), (''m2'', True), (''m1'', False)] \<and>
   distinct (map statQueueName (GetQueueStats busy_q1))"
proof -
  have 1: "map (\<lambda>r. (statQueueName r, TotalSent r, TotalReceived r, TotalDeleted r, Pending r))
     (GetQueueStats busy_q1) = [(''q1'', 3, 2, 1, 2)]"
    by (simp add: busy_q1_def run_def run_defs GetQueueStats_def tally_def count_event_def
        set_pending_def pending_of_def)
  have 2: "map Action (events busy_q1) =
     [ActionSend, ActionSend, ActionSend, ActionReceive, ActionReceive, ActionDelete]"
    by (simp add: busy_q1_def run_def run_defs)
  have 3: "members busy_q1 ''q1'' = [''m3'', ''m2'', ''m1'']"
    by (simp add: busy_q1_def run_def run_defs)
  have 4: "map (\<lambda>m. (m, live busy_q1 m)) [''m3'', ''m2'', ''m1''] =
     [(''m3'', True), (''m2'', True), (''m1'', False)]"
    by (simp add: busy_q1_def run_def run_defs live_def)
  show ?thesis
    using queue_stats_counts [OF reachable_busy_q1] reachable_busy_q1 1 2 3 4
    by simp
qed

text \<open>
  The claim as stated fails: when \<open>m1\<close> is sent to \<open>q1\<close> and then sent again to \<open>q2\<close>,
  the statistics report one pending message for \<open>q1\<close>, and no current-state entry
  has the queue name \<open>q1\<close>.
\<close>

theorem pending_counts_members:
  "moved_m1 = RecordSend ''http://x/q2'' ''q2'' ''m1'' ''hi'' [] t0 t0
                (RecordSend ''http://x/q1'' ''q1'' ''m1'' ''hi'' [] t0 t0 New) \<and>
   map (\<lambda>r. (statQueueName r, Pending r)) (GetQueueStats moved_m1) = [(''q1'', 1), (''q2'', 1)] \<and>
   filter (\<lambda>e. QueueName e = ''q1'' \<and> \<not> Deleted e)
     (map (\<lambda>p. heap moved_m1 ! p) (map snd (messages moved_m1))) = [] \<and>
   GetMessages ''q1'' False moved_m1 = []"
  by (simp add: run_defs GetQueueStats_def tally_def count_event_def
        set_pending_def pending_of_def GetMessages_def)

section \<open>Properties of the codec and the interceptor\<close>

subsection \<open>Identifying the action\<close>







subsection \<open>Message attributes of a Form body\<close>

lemma map_of_fold_update:
  "map_of (fold (\<lambda>match tab. AList.update (fst match) (f (snd match)) tab) matches tab0) =
   map_of (rev (map (\<lambda>match. (fst match, f (snd match))) matches) @ tab0)"
proof (induction matches arbitrary: tab0)
  case Nil
  show ?case by simp
next
  case (Cons match matches)
  show ?case
    by (simp add: Cons.IH update_conv' map_add_def fun_eq_iff split: option.splits)
qed

lemma distinct_fold_update:
  "distinct (map fst tab0) \<Longrightarrow>
   distinct (map fst (fold (\<lambda>match tab. AList.update (fst match) (f (snd match)) tab) matches tab0))"
  by (induction matches arbitrary: tab0) (simp_all add: distinct_update)

lemma map_of_collect:
  "map_of (collect matches) =
   map_of (rev (map (\<lambda>match. (fst match, QueryUnescape (snd match))) matches))"
  unfolding collect_def by (simp add: map_of_fold_update)

lemma distinct_collect: "distinct (map fst (collect matches))"
  unfolding collect_def by (rule distinct_fold_update) simp

lemma correlate_fold: "correlate names values = fold (pair_up values) names []"
  by (simp add: correlate_def pair_up_def [abs_def])

lemma map_of_pair_up:
  "map_of (pair_up values entry attrs) n =
     (if snd entry = n \<and> map_of values (fst entry) \<noteq> None then map_of values (fst entry)
      else map_of attrs n)"
  by (auto simp: pair_up_def update_conv' split: option.splits)

lemma distinct_pair_up_fold:
  "distinct (map fst attrs) \<Longrightarrow> distinct (map fst (fold (pair_up values) names attrs))"
  by (induction names arbitrary: attrs)
     (simp_all add: pair_up_def distinct_update split: option.splits)

lemma untouched:
  "\<forall>entry \<in> set names. snd entry = n \<longrightarrow> map_of values (fst entry) = None \<Longrightarrow>
   map_of (fold (pair_up values) names attrs) n = map_of attrs n"
  by (induction names arbitrary: attrs) (auto simp: map_of_pair_up)

lemma from_a_pair:
  "map_of (fold (pair_up values) names attrs) n = Some v \<Longrightarrow>
   map_of attrs n = Some v \<or> (\<exists>N. (N, n) \<in> set names \<and> map_of values N = Some v)"
proof (induction names arbitrary: attrs)
  case Nil
  then show ?case by simp
next
  case (Cons entry names)
  from Cons.prems have "map_of (fold (pair_up values) names (pair_up values entry attrs)) n = Some v"
    by simp
  from Cons.IH [OF this] show ?case
  proof
    assume "map_of (pair_up values entry attrs) n = Some v"
    then show ?thesis
      by (cases entry) (auto simp: map_of_pair_up split: if_splits)
  next
    assume "\<exists>N. (N, n) \<in> set names \<and> map_of values N = Some v"
    then show ?thesis by auto
  qed
qed

lemma key_stays:
  "map_of attrs n \<noteq> None \<Longrightarrow> map_of (fold (pair_up values) names attrs) n \<noteq> None"
  by (induction names arbitrary: attrs) (auto simp: map_of_pair_up)

lemma name_present:
  "(N, n) \<in> set names \<Longrightarrow> map_of values N = Some v \<Longrightarrow>
   map_of (fold (pair_up values) names attrs) n \<noteq> None"
proof (induction names arbitrary: attrs)
  case Nil
  then show ?case by simp
next
  case (Cons entry names)
  show ?case
  proof (cases "entry = (N, n)")
    case True
    with Cons.prems(2) have "map_of (pair_up values entry attrs) n \<noteq> None"
      by (simp add: map_of_pair_up)
    then show ?thesis by (simp add: key_stays)
  next
    case False
    with Cons.prems have "(N, n) \<in> set names" by simp
    from Cons.IH [OF this Cons.prems(2)] show ?thesis by simp
  qed
qed

lemma exact_pair:
  assumes "distinct (map fst names)"
    and "\<forall>N N'. (N, n) \<in> set names \<and> (N', n) \<in> set names \<and>
           map_of values N \<noteq> None \<and> map_of values N' \<noteq> None \<longrightarrow> N = N'"
    and "(N, n) \<in> set names" and "map_of values N = Some v"
  shows "map_of (fold (pair_up values) names attrs) n = Some v"
  using assms
proof (induction names arbitrary: attrs)
  case Nil
  then show ?case by simp
next
  case (Cons entry names)
  show ?case
  proof (cases "entry = (N, n)")
    case True
    have "\<forall>e \<in> set names. snd e = n \<longrightarrow> map_of values (fst e) = None"
    proof (intro ballI impI)
      fix e
      assume e: "e \<in> set names" and s: "snd e = n"
      show "map_of values (fst e) = None"
      proof (rule ccontr)
        assume "map_of values (fst e) \<noteq> None"
        moreover from e s have "(fst e, n) \<in> set (entry # names)" by auto
        moreover from True have "(N, n) \<in> set (entry # names)" by simp
        ultimately have "fst e = N"
          using Cons.prems(2) Cons.prems(4) by blast
        with e True Cons.prems(1) show False by (auto simp: image_iff)
      qed
    qed
    from untouched [OF this] True Cons.prems(4) show ?thesis
      by (simp add: map_of_pair_up)
  next
    case False
    with Cons.prems(3) have in_names: "(N, n) \<in> set names" by simp
    from Cons.prems(1) have d: "distinct (map fst names)" by simp
    from Cons.prems(2) have i: "\<forall>N N'. (N, n) \<in> set names \<and> (N', n) \<in> set names \<and>
           map_of values N \<noteq> None \<and> map_of values N' \<noteq> None \<longrightarrow> N = N'"
      by auto
    from Cons.IH [OF d i in_names Cons.prems(4)] show ?thesis by simp
  qed
qed

text \<open>
  Claim C9, as the code has it. For a Form body, the table of names (of values) maps an
  index to the decoded text of its last \<^verbatim>\<open>Name\<close> (\<^verbatim>\<open>StringValue\<close>) match. Every entry of
  the extracted map is the name and the value of one index that has both, and the name
  of every such index is a key of the map, which has no key twice. When no two indices
  that have both halves carry the same name, the map holds name and value of each of
  them. Nothing in this depends on the order or the contiguity of the indices.
\<close>

theorem form_attributes_correlated:
  "map_of (form_names body) =
     map_of (rev (map (\<lambda>match. (fst match, QueryUnescape (snd match)))
       (find_all (re_indexed ''MessageAttribute'' ''Name'') 0 body))) \<and>
   map_of (form_values body) =
     map_of (rev (map (\<lambda>match. (fst match, QueryUnescape (snd match)))
       (find_all (re_indexed ''MessageAttribute'' ''Value.StringValue'') 0 body))) \<and>
   distinct (map fst (extractMessageAttributes dec body False)) \<and>
   (\<forall>n v. map_of (extractMessageAttributes dec body False) n = Some v \<longrightarrow>
      (\<exists>N. map_of (form_names body) N = Some n \<and> map_of (form_values body) N = Some v)) \<and>
   (\<forall>N n v. map_of (form_names body) N = Some n \<and> map_of (form_values body) N = Some v \<longrightarrow>
      map_of (extractMessageAttributes dec body False) n \<noteq> None) \<and>
   ((\<forall>N N' n. map_of (form_names body) N = Some n \<and> map_of (form_names body) N' = Some n \<and>
        map_of (form_values body) N \<noteq> None \<and> map_of (form_values body) N' \<noteq> None
        \<longrightarrow> N = N') \<longrightarrow>
    (\<forall>N n v. map_of (form_names body) N = Some n \<and> map_of (form_values body) N = Some v \<longrightarrow>
       map_of (extractMessageAttributes dec body False) n = Some v))"
proof -
  let ?nms = "form_names body" and ?vals = "form_values body"
  have x: "extractMessageAttributes dec body False = fold (pair_up ?vals) ?nms []"
    by (simp add: extractMessageAttributes_def correlate_fold)
  have d: "distinct (map fst ?nms)"
    unfolding form_names_def by (rule distinct_collect)
  have mem: "(N, n) \<in> set ?nms \<longleftrightarrow> map_of ?nms N = Some n" for N n
    using d by simp
  have 1: "map_of ?nms =
     map_of (rev (map (\<lambda>match. (fst match, QueryUnescape (snd match)))
       (find_all (re_indexed ''MessageAttribute'' ''Name'') 0 body)))"
    unfolding form_names_def by (rule map_of_collect)
  have 2: "map_of ?vals =
     map_of (rev (map (\<lambda>match. (fst match, QueryUnescape (snd match)))
       (find_all (re_indexed ''MessageAttribute'' ''Value.StringValue'') 0 body)))"
    unfolding form_values_def by (rule map_of_collect)
  have 3: "distinct (map fst (extractMessageAttributes dec body False))"
    unfolding x by (rule distinct_pair_up_fold) simp
  have 4: "\<exists>N. map_of ?nms N = Some n \<and> map_of ?vals N = Some v"
    if "map_of (extractMessageAttributes dec body False) n = Some v" for n v
    using from_a_pair [OF that [unfolded x]] by (simp add: mem)
  have 5: "map_of (extractMessageAttributes dec body False) n \<noteq> None"
    if "map_of ?nms N = Some n \<and> map_of ?vals N = Some v" for N n v
    unfolding x using that name_present [of N n ?nms ?vals v "[]"] by (simp add: mem)
  have 6: "map_of (extractMessageAttributes dec body False) n = Some v"
    if i: "\<forall>N N' n. map_of ?nms N = Some n \<and> map_of ?nms N' = Some n \<and>
        map_of ?vals N \<noteq> None \<and> map_of ?vals N' \<noteq> None \<longrightarrow> N = N'"
      and p: "map_of ?nms N = Some n \<and> map_of ?vals N = Some v" for N n v
  proof -
    from i have "\<forall>N N'. (N, n) \<in> set ?nms \<and> (N', n) \<in> set ?nms \<and>
           map_of ?vals N \<noteq> None \<and> map_of ?vals N' \<noteq> None \<longrightarrow> N = N'"
      unfolding mem by blast
    from exact_pair [OF d this, of N v "[]"] p show ?thesis
      unfolding x by (simp add: mem)
  qed
  from 1 2 3 4 5 6 show ?thesis by blast
qed

theorem form_attributes_correlated_witness:
  "map_of (form_names scattered_attributes) ''7'' = Some ''a+b'' \<and>
   map_of (form_values scattered_attributes) ''7'' = Some ''x y'' \<and>
   map_of (form_names scattered_attributes) ''2'' = Some ''b'' \<and>
   map_of (form_values scattered_attributes) ''2'' = None \<and>
   map_of (form_names scattered_attributes) ''3'' = None \<and>
   map_of (form_values scattered_attributes) ''3'' = Some ''c'' \<and>
   map_of (extractMessageAttributes sample_dec scattered_attributes False) ''a+b'' = Some ''x y'' \<and>
   map fst (extractMessageAttributes sample_dec scattered_attributes False) = [''a+b'']"
proof -
  have n: "form_names scattered_attributes = [(''2'', ''b''), (''7'', ''a+b'')]"
    by code_simp
  have v: "form_values scattered_attributes = [(''7'', ''x y''), (''3'', ''c'')]"
    by code_simp
  have k: "map fst (extractMessageAttributes sample_dec scattered_attributes False) = [''a+b'']"
    by code_simp
  have inj: "\<forall>N N' n. map_of (form_names scattered_attributes) N = Some n \<and>
        map_of (form_names scattered_attributes) N' = Some n \<and>
        map_of (form_values scattered_attributes) N \<noteq> None \<and>
        map_of (form_values scattered_attributes) N' \<noteq> None \<longrightarrow> N = N'"
    unfolding n v by (auto split: if_splits)
  from form_attributes_correlated [of scattered_attributes sample_dec] inj
  have "\<forall>N n v. map_of (form_names scattered_attributes) N = Some n \<and>
          map_of (form_values scattered_attributes) N = Some v \<longrightarrow>
          map_of (extractMessageAttributes sample_dec scattered_attributes False) n = Some v"
    by blast
  then have "map_of (form_names scattered_attributes) ''7'' = Some ''a+b'' \<and>
          map_of (form_values scattered_attributes) ''7'' = Some ''x y'' \<longrightarrow>
          map_of (extractMessageAttributes sample_dec scattered_attributes False) ''a+b''
            = Some ''x y''"
    by blast
  then have "map_of (extractMessageAttributes sample_dec scattered_attributes False) ''a+b''
            = Some ''x y''"
    by (simp add: n v)
  then show ?thesis
    using k by (simp add: n v)
qed

text \<open>
  The claim as stated fails: when the indices 1 and 2 both carry the name \<open>a\<close>, the
  extracted map has one entry, not one per index; it keeps the value of the index that
  the loop over the names visits last, whichever order the loop takes.
\<close>

theorem shared_name_single_entry:
  "form_names shared_name_attributes = [(''1'', ''a''), (''2'', ''a'')] \<and>
   form_values shared_name_attributes = [(''1'', ''x''), (''2'', ''y'')] \<and>
   extractMessageAttributes sample_dec shared_name_attributes False = [(''a'', ''y'')] \<and>
   correlate [(''1'', ''a''), (''2'', ''a'')] (form_values shared_name_attributes) = [(''a'', ''y'')] \<and>
   correlate [(''2'', ''a''), (''1'', ''a'')] (form_values shared_name_attributes) = [(''a'', ''x'')]"
  by code_simp

end
